theory Spec2Isabelle
  imports Main "HOL-Library.AList"
begin

section \<open>Values (sconf\_value.hpp, sconf\_value.cpp)\<close>

text \<open>
  The exceptions of the library are all of one class, \<open>SconfException\<close>, and differ by
  their message only. The model has one constructor for each message template of the
  source; the argument is the name or the line that the source appends to the message
  (the name of a file is not modelled). The two last constructors are the standard
  exceptions that \<open>std::stoi\<close> raises.
\<close>

datatype error =
    FailedToOpenFile
  | FailedToOpenFileForWriting
  | InvalidKeyValuePair string
  | UnsupportedValueType
  | SectionNotFound string
  | KeyNotFoundInSection string
  | KeyNotFound string
  | ValueIsNotAnInteger
  | ValueIsNotADouble
  | ValueIsNotABoolean
  | ValueIsNotAString
  | ValueIsNotADate
  | ValueIsNotAnArray
  | StdInvalidArgument
  | StdOutOfRange

datatype Type = String | Integer | Double | Boolean | Date | Array

text \<open>
  The class \<open>sConfValue\<close> has three private fields: the text of a scalar, the elements
  of an array, and the tag.
\<close>

datatype sConfValue =
  SConfValue (stringValue: string) (values': "sConfValue list") (type: Type)

text \<open>The constructors from a string, from a vector of values, and the default one.\<close>

definition sConfValue_string :: "string \<Rightarrow> sConfValue" where
  "sConfValue_string val = SConfValue val [] String"

definition sConfValue_array :: "sConfValue list \<Rightarrow> sConfValue" where
  "sConfValue_array val = SConfValue [] val Array"

definition sConfValue_default :: sConfValue where
  "sConfValue_default = SConfValue [] [] String"

definition sConfValue_bool :: "bool \<Rightarrow> sConfValue" where
  "sConfValue_bool val = SConfValue (if val then ''true'' else ''false'') [] Boolean"

text \<open>
  The constructor from a \<open>std::tm\<close> formats it with \<open>"%Y-%m-%d %H:%M:%S"\<close>. The
  fields of \<open>std::tm\<close> that the format reads are modelled, for a date whose fields are
  in their calendar ranges and whose year has four digits.
\<close>

record tm =
  tm_sec :: nat
  tm_min :: nat
  tm_hour :: nat
  tm_mday :: nat
  tm_mon :: nat
  tm_year :: nat

definition digit :: "nat \<Rightarrow> char" where
  "digit n = char_of (48 + n mod 10)"

definition two_digits :: "nat \<Rightarrow> string" where
  "two_digits n = [digit (n div 10), digit n]"

definition four_digits :: "nat \<Rightarrow> string" where
  "four_digits n = [digit (n div 1000), digit (n div 100), digit (n div 10), digit n]"

definition strftime :: "tm \<Rightarrow> string" where
  "strftime t =
     four_digits (1900 + tm_year t) @ ''-'' @ two_digits (tm_mon t + 1) @ ''-'' @
     two_digits (tm_mday t) @ '' '' @ two_digits (tm_hour t) @ '':'' @
     two_digits (tm_min t) @ '':'' @ two_digits (tm_sec t)"

definition sConfValue_date :: "tm \<Rightarrow> sConfValue" where
  "sConfValue_date val = SConfValue (strftime val) [] Date"

definition getType :: "sConfValue \<Rightarrow> Type" where
  "getType v = type v"

definition value_isArray :: "sConfValue \<Rightarrow> bool" where
  "value_isArray v \<longleftrightarrow> type v = Array"

definition getString :: "sConfValue \<Rightarrow> error + string" where
  "getString v = (if type v \<noteq> String then Inl ValueIsNotAString else Inr (stringValue v))"

definition getBoolean :: "sConfValue \<Rightarrow> error + bool" where
  "getBoolean v =
     (if type v \<noteq> Boolean then Inl ValueIsNotABoolean else Inr (stringValue v = ''true''))"

definition getArray :: "sConfValue \<Rightarrow> error + sConfValue list" where
  "getArray v = (if type v \<noteq> Array then Inl ValueIsNotAnArray else Inr (values' v))"

text \<open>
  \<open>int_to_string\<close> is the decimal text that \<open>std::to_string\<close> and the stream's
  \<open>operator<<\<close> give for an \<open>int\<close>; the constructor from an \<open>int\<close> stores it (the model
  takes any integer, the source those in the range of \<open>int\<close>).
\<close>

definition isdigit :: "char \<Rightarrow> bool" where
  "isdigit c \<longleftrightarrow> 48 \<le> (of_char c :: nat) \<and> (of_char c :: nat) \<le> 57"

function nat_to_string :: "nat \<Rightarrow> string" where
  "nat_to_string n = (if n < 10 then [digit n] else nat_to_string (n div 10) @ [digit n])"
  by pat_completeness auto
termination
  by (relation "measure id") auto

declare nat_to_string.simps [simp del]

definition int_to_string :: "int \<Rightarrow> string" where
  "int_to_string i = (if i < 0 then CHR ''-'' # nat_to_string (nat (- i)) else nat_to_string (nat i))"

definition sConfValue_int :: "int \<Rightarrow> sConfValue" where
  "sConfValue_int val = SConfValue (int_to_string val) [] Integer"

section \<open>Grammar (the static helpers of sConfParser)\<close>

text \<open>
  \<open>std::isspace\<close> in the "C" locale: space, and the five control characters from
  horizontal tab to carriage return.
\<close>

definition isspace :: "char \<Rightarrow> bool" where
  "isspace c \<longleftrightarrow> c \<in> {CHR '' '', CHR 0x09, CHR 0x0A, CHR 0x0B, CHR 0x0C, CHR 0x0D}"

text \<open>
  \<open>std::stoi\<close>: leading spaces are skipped, a sign is optional, the digits that follow are
  read; no digit is \<open>std::invalid_argument\<close>, a number outside the range of \<open>int\<close> is
  \<open>std::out_of_range\<close>.
\<close>

definition stoi :: "string \<Rightarrow> error + int" where
  "stoi str =
     (let s = dropWhile isspace str;
          neg = (s \<noteq> [] \<and> hd s = CHR ''-'');
          s' = (if s \<noteq> [] \<and> (hd s = CHR ''-'' \<or> hd s = CHR ''+'') then tl s else s);
          ds = takeWhile isdigit s'
      in if ds = [] then Inl StdInvalidArgument
         else let n = int (foldl (\<lambda>a c. 10 * a + (of_char c - 48)) 0 ds);
                  v = (if neg then - n else n)
              in if v < - 2147483648 \<or> 2147483647 < v then Inl StdOutOfRange else Inr v)"

definition getInteger :: "sConfValue \<Rightarrow> error + int" where
  "getInteger v = (if type v \<noteq> Integer then Inl ValueIsNotAnInteger else stoi (stringValue v))"

text \<open>
  \<open>trim\<close>: \<open>start\<close> is the position of the first character that is not a space,
  \<open>end\<close> the position after the last one; the result is the text between them, or the
  empty string when there is none.
\<close>

definition trim :: "string \<Rightarrow> string" where
  "trim str =
     (let start = length (takeWhile isspace str);
          end = length str - length (takeWhile isspace (rev str))
      in if start < end then take (end - start) (drop start str) else [])"

abbreviation dquote :: char where
  "dquote \<equiv> CHR 0x22"

text \<open>\<open>substr pos n\<close> for a position inside the string, as all the calls of the source are.\<close>

definition substr :: "string \<Rightarrow> nat \<Rightarrow> nat \<Rightarrow> string" where
  "substr str pos n = take n (drop pos str)"

definition trimQuotes :: "string \<Rightarrow> string" where
  "trimQuotes str =
     (if length str \<ge> 2 \<and> hd str = dquote \<and> last str = dquote
      then substr str 1 (length str - 2) else str)"

definition isArray :: "string \<Rightarrow> bool" where
  "isArray val \<longleftrightarrow> val \<noteq> [] \<and> hd val = CHR ''['' \<and> last val = CHR '']''"

text \<open>
  The loop \<open>while(std::getline(stream, item, delim))\<close>: each round takes the characters
  up to the next delimiter and discards the delimiter; the loop ends when the stream is
  exhausted before a character is read. The result is the list of the items read.
\<close>

function getlines :: "char \<Rightarrow> string \<Rightarrow> string list" where
  "getlines delim s =
     (if s = [] then []
      else takeWhile (\<lambda>c. c \<noteq> delim) s # getlines delim (drop 1 (dropWhile (\<lambda>c. c \<noteq> delim) s)))"
  by pat_completeness auto
termination
proof (relation "measure (\<lambda>(delim, s). length s)")
  show "wf (measure (\<lambda>(delim, s). length s))" by simp
next
  fix delim :: char and s :: string
  assume ne: "s \<noteq> []"
  have "length (dropWhile (\<lambda>c. c \<noteq> delim) s) \<le> length s"
    by (rule length_dropWhile_le)
  with ne have "length (drop 1 (dropWhile (\<lambda>c. c \<noteq> delim) s)) < length s"
    by (cases s) simp_all
  then show "((delim, drop 1 (dropWhile (\<lambda>c. c \<noteq> delim) s)), (delim, s))
      \<in> measure (\<lambda>(delim, s). length s)"
    by simp
qed

declare getlines.simps [simp del]

text \<open>
  \<open>parseArray\<close> is private and called on strings that satisfy \<open>isArray\<close> only, which
  have two characters at least; \<open>inner\<close> is the text between the brackets.
\<close>

function parseArray :: "string \<Rightarrow> sConfValue list" where
  "parseArray val =
     (let inner = substr val 1 (length val - 2)
      in map (\<lambda>item.
            let trimmed = trimQuotes (trim item)
            in if isArray trimmed then sConfValue_array (parseArray trimmed)
               else sConfValue_string trimmed)
          (getlines (CHR '','') inner))"
  by pat_completeness auto
termination
proof (relation "measure length")
  show "wf (measure length)" by simp
next
  fix val inner item trimmed :: string
  assume inner: "inner = substr val 1 (length val - 2)"
    and item: "item \<in> set (getlines (CHR '','') inner)"
    and trimmed: "trimmed = trimQuotes (trim item)"
    and arr: "isArray trimmed"
  have piece: "length x \<le> length s" if "x \<in> set (getlines d s)" for x d s
    using that
  proof (induction d s rule: getlines.induct)
    case (1 d s)
    show ?case
    proof (cases "s = []")
      case True
      with "1.prems" show ?thesis by (simp add: getlines.simps)
    next
      case False
      from "1.prems" False
      have "x = takeWhile (\<lambda>c. c \<noteq> d) s
          \<or> x \<in> set (getlines d (drop 1 (dropWhile (\<lambda>c. c \<noteq> d) s)))"
        by (subst (asm) getlines.simps) auto
      then show ?thesis
      proof
        assume "x = takeWhile (\<lambda>c. c \<noteq> d) s"
        then show ?thesis by (simp add: length_takeWhile_le)
      next
        assume "x \<in> set (getlines d (drop 1 (dropWhile (\<lambda>c. c \<noteq> d) s)))"
        then have "length x \<le> length (drop 1 (dropWhile (\<lambda>c. c \<noteq> d) s))"
          using "1.IH" False by simp
        also have "\<dots> \<le> length s"
          using length_dropWhile_le [of "\<lambda>c. c \<noteq> d" s] by simp
        finally show ?thesis .
      qed
    qed
  qed
  have "length trimmed \<le> length (trim item)"
    unfolding trimmed by (simp add: trimQuotes_def substr_def)
  also have "length (trim item) \<le> length item"
    by (simp add: trim_def Let_def)
  also have "length item \<le> length inner"
    using item by (rule piece)
  finally have le: "length trimmed \<le> length inner" .
  from arr have "trimmed \<noteq> []" by (simp add: isArray_def)
  then have "0 < length trimmed" by simp
  with le have "0 < length inner" by linarith
  then have "length inner < length val"
    unfolding inner substr_def by simp
  with le show "(trimmed, val) \<in> measure length" by simp
qed

declare parseArray.simps [simp del]

section \<open>Serialising a value\<close>

text \<open>
  \<open>saveValue\<close> appends the text of a value to the output stream; the model returns the
  text appended, or the exception. The \<open>switch\<close> has a case for \<open>Array\<close>, \<open>String\<close>,
  \<open>Integer\<close>, \<open>Double\<close> and \<open>Boolean\<close>; every other tag reaches \<open>default\<close>. The text of
  a \<open>Double\<close> is \<open>std::stod\<close> followed by the stream's floating-point formatting, which
  is outside this embedding: it is the parameter \<open>showDouble\<close>, from the stored text to
  the text written (or the exception of \<open>std::stod\<close>).
\<close>

fun saveValue :: "(string \<Rightarrow> error + string) \<Rightarrow> sConfValue \<Rightarrow> error + string"
  and saveValues :: "(string \<Rightarrow> error + string) \<Rightarrow> sConfValue list \<Rightarrow> error + string"
where
  "saveValue showDouble (SConfValue s vs t) =
     (case t of
        Array \<Rightarrow>
          (case saveValues showDouble vs of
             Inl e \<Rightarrow> Inl e
           | Inr body \<Rightarrow> Inr (''['' @ body @ '']''))
      | String \<Rightarrow> getString (SConfValue s vs t)
      | Integer \<Rightarrow>
          (case getInteger (SConfValue s vs t) of
             Inl e \<Rightarrow> Inl e
           | Inr i \<Rightarrow> Inr (int_to_string i))
      | Double \<Rightarrow> showDouble s
      | Boolean \<Rightarrow>
          (case getBoolean (SConfValue s vs t) of
             Inl e \<Rightarrow> Inl e
           | Inr b \<Rightarrow> Inr (if b then ''true'' else ''false''))
      | _ \<Rightarrow> Inl UnsupportedValueType)"
| "saveValues showDouble [] = Inr []"
| "saveValues showDouble (v # rest) =
     (case saveValue showDouble v of
        Inl e \<Rightarrow> Inl e
      | Inr a \<Rightarrow>
          if rest = [] then Inr a
          else (case saveValues showDouble rest of
                  Inl e \<Rightarrow> Inl e
                | Inr b \<Rightarrow> Inr (a @ '', '' @ b)))"

text \<open>A value has a date when its tag is \<open>Date\<close> or it is an array with such an element.\<close>

fun has_date :: "sConfValue \<Rightarrow> bool" where
  "has_date (SConfValue s vs t) \<longleftrightarrow> t = Date \<or> (t = Array \<and> (\<exists>v\<in>set vs. has_date v))"

section \<open>The parser object\<close>

text \<open>
  The two stores are \<open>std::unordered_map\<close>s. They are modelled as association lists
  with one entry for each key: \<open>find\<close> is \<open>map_of\<close>, \<open>operator[]\<close> adds an entry when the
  key is absent, \<open>erase\<close> is \<open>AList.delete\<close>. The order of the list stands for the order
  in which the map is iterated, which the C++ standard leaves open; a new entry is put
  at the end of the list.
\<close>

type_synonym section_map = "(string \<times> sConfValue) list"

record sConfParser =
  data :: "(string \<times> section_map) list"
  comments :: "(string \<times> string list) list"

definition sConfParser_init :: sConfParser where
  "sConfParser_init = \<lparr>data = [], comments = []\<rparr>"

text \<open>\<open>m[k]\<close> on a map with a default-constructed value \<open>d\<close>: the value stored, or \<open>d\<close>.\<close>

definition subscript :: "('k \<times> 'v) list \<Rightarrow> 'k \<Rightarrow> 'v \<Rightarrow> 'v" where
  "subscript m k d = (case map_of m k of None \<Rightarrow> d | Some v \<Rightarrow> v)"

text \<open>\<open>std::string::find\<close> of a character: its first position, or \<open>None\<close> for \<open>npos\<close>.\<close>

definition find_char :: "char \<Rightarrow> string \<Rightarrow> nat option" where
  "find_char c s = (if c \<in> set s then Some (length (takeWhile (\<lambda>x. x \<noteq> c) s)) else None)"

text \<open>
  \<open>parseLine\<close> changes its two reference parameters and the object; the model returns
  the three of them. The exception for a line without \<open>=\<close> is raised before anything is
  changed.
\<close>

definition parseLine ::
  "string \<Rightarrow> string \<Rightarrow> string list \<Rightarrow> sConfParser \<Rightarrow> error + (string \<times> string list \<times> sConfParser)"
where
  "parseLine line currentSection commentBuffer this =
     (let trimmed = trim line
      in if trimmed = [] then Inr (currentSection, commentBuffer, this)
         else if hd trimmed = CHR '';''
         then Inr (currentSection, commentBuffer @ [trim (drop 1 trimmed)], this)
         else if hd trimmed = CHR ''['' \<and> last trimmed = CHR '']''
         then
           (let section = trimQuotes (trim (substr trimmed 1 (length trimmed - 2)));
                existing = subscript (comments this) section []
            in Inr (section, [],
                 this\<lparr>comments := AList.update section (existing @ commentBuffer) (comments this)\<rparr>))
         else
           (case find_char (CHR ''='') trimmed of
              None \<Rightarrow> Inl (InvalidKeyValuePair line)
            | Some eqPos \<Rightarrow>
                (let key = trimQuotes (trim (substr trimmed 0 eqPos));
                     val = trim (drop (eqPos + 1) trimmed);
                     val' = (case find_char (CHR '';'') val of
                               None \<Rightarrow> val
                             | Some commentPos \<Rightarrow> trimQuotes (trim (substr val 0 commentPos)));
                     sValue = (if isArray val' then sConfValue_array (parseArray val')
                               else sConfValue_string (trimQuotes val'));
                     keys = subscript (data this) currentSection []
                 in Inr (currentSection, [],
                      this\<lparr>data := AList.update currentSection (AList.update key sValue keys) (data this)\<rparr>))))"

text \<open>
  The four branches of \<open>parseLine\<close>, by the condition that selects each of them, and the
  names that the two last branches read from the line.
\<close>

definition is_blank :: "string \<Rightarrow> bool" where
  "is_blank line \<longleftrightarrow> trim line = []"

definition is_comment :: "string \<Rightarrow> bool" where
  "is_comment line \<longleftrightarrow> trim line \<noteq> [] \<and> hd (trim line) = CHR '';''"

definition is_section_header :: "string \<Rightarrow> bool" where
  "is_section_header line \<longleftrightarrow>
     trim line \<noteq> [] \<and> hd (trim line) = CHR ''['' \<and> last (trim line) = CHR '']''"

definition is_key_value :: "string \<Rightarrow> bool" where
  "is_key_value line \<longleftrightarrow>
     trim line \<noteq> [] \<and> hd (trim line) \<noteq> CHR '';'' \<and> \<not> is_section_header line"

definition section_of :: "string \<Rightarrow> string" where
  "section_of line = trimQuotes (trim (substr (trim line) 1 (length (trim line) - 2)))"

definition key_of :: "string \<Rightarrow> string" where
  "key_of line = trimQuotes (trim (takeWhile (\<lambda>c. c \<noteq> CHR ''='') (trim line)))"

definition value_text :: "string \<Rightarrow> string" where
  "value_text line =
     (let val = trim (drop (length (takeWhile (\<lambda>c. c \<noteq> CHR ''='') (trim line)) + 1) (trim line))
      in case find_char (CHR '';'') val of
           None \<Rightarrow> val
         | Some commentPos \<Rightarrow> trimQuotes (trim (substr val 0 commentPos)))"

definition value_of :: "string \<Rightarrow> sConfValue" where
  "value_of line =
     (if isArray (value_text line) then sConfValue_array (parseArray (value_text line))
      else sConfValue_string (trimQuotes (value_text line)))"

definition has_key :: "string \<Rightarrow> string \<Rightarrow> sConfParser \<Rightarrow> bool" where
  "has_key section key this =
     (case map_of (data this) section of
        None \<Rightarrow> False
      | Some keys \<Rightarrow> map_of keys key \<noteq> None)"

text \<open>
  The loop of \<open>load\<close> over the lines of the file. An exception of \<open>parseLine\<close> leaves
  \<open>load\<close> at once; the object keeps what the lines before have put into it, so the model
  returns the exception (if any) together with the state of the object.
\<close>

fun parseLines ::
  "string list \<Rightarrow> string \<Rightarrow> string list \<Rightarrow> sConfParser \<Rightarrow> error option \<times> string \<times> string list \<times> sConfParser"
where
  "parseLines [] currentSection commentBuffer this = (None, currentSection, commentBuffer, this)"
| "parseLines (line # rest) currentSection commentBuffer this =
     (case parseLine line currentSection commentBuffer this of
        Inl e \<Rightarrow> (Some e, currentSection, commentBuffer, this)
      | Inr (currentSection', commentBuffer', this') \<Rightarrow>
          parseLines rest currentSection' commentBuffer' this')"

text \<open>
  \<open>load\<close>: \<open>file\<close> is the text of the file, or \<open>None\<close> when the stream could not be
  opened. The lines are read by \<open>std::getline\<close> with the newline as delimiter.
\<close>

definition newline :: char where
  "newline = CHR 0x0A"

definition load_lines :: "string list \<Rightarrow> sConfParser \<Rightarrow> error option \<times> sConfParser" where
  "load_lines ls this = (case parseLines ls [] [] this of (e, _, _, this') \<Rightarrow> (e, this'))"

definition load :: "string option \<Rightarrow> sConfParser \<Rightarrow> error option \<times> sConfParser" where
  "load file this =
     (case file of
        None \<Rightarrow> (Some FailedToOpenFile, this)
      | Some text \<Rightarrow> load_lines (getlines newline text) this)"

text \<open>
  \<open>save\<close>: the text written to the file, in the iteration order of the two levels of
  \<open>data\<close>; \<open>can_open\<close> tells whether the output stream could be opened.
\<close>

fun save_keys :: "(string \<Rightarrow> error + string) \<Rightarrow> section_map \<Rightarrow> error + string" where
  "save_keys showDouble [] = Inr []"
| "save_keys showDouble ((key, v) # rest) =
     (case saveValue showDouble v of
        Inl e \<Rightarrow> Inl e
      | Inr t \<Rightarrow>
          (case save_keys showDouble rest of
             Inl e \<Rightarrow> Inl e
           | Inr r \<Rightarrow> Inr (key @ '' = '' @ t @ [newline] @ r)))"

definition save_comments :: "(string \<times> string list) list \<Rightarrow> string \<Rightarrow> string" where
  "save_comments cs section =
     (case map_of cs section of
        None \<Rightarrow> []
      | Some lines \<Rightarrow> concat (map (\<lambda>comment. ''; '' @ comment @ [newline]) lines))"

fun save_sections ::
  "(string \<Rightarrow> error + string) \<Rightarrow> (string \<times> string list) list \<Rightarrow> (string \<times> section_map) list \<Rightarrow> error + string"
where
  "save_sections showDouble cs [] = Inr []"
| "save_sections showDouble cs ((section, keys) # rest) =
     (case save_keys showDouble keys of
        Inl e \<Rightarrow> Inl e
      | Inr ks \<Rightarrow>
          (case save_sections showDouble cs rest of
             Inl e \<Rightarrow> Inl e
           | Inr r \<Rightarrow> Inr (save_comments cs section @ ''['' @ section @ '']'' @ [newline] @ ks @ r)))"

definition save :: "(string \<Rightarrow> error + string) \<Rightarrow> bool \<Rightarrow> sConfParser \<Rightarrow> error + string" where
  "save showDouble can_open this =
     (if \<not> can_open then Inl FailedToOpenFileForWriting
      else save_sections showDouble (comments this) (data this))"

section \<open>The public operations on sections and keys\<close>

definition getSections :: "sConfParser \<Rightarrow> string list" where
  "getSections this = map fst (data this)"

definition getSection :: "string \<Rightarrow> sConfParser \<Rightarrow> error + section_map" where
  "getSection section this =
     (case map_of (data this) (trimQuotes (trim section)) of
        Some keys \<Rightarrow> Inr keys
      | None \<Rightarrow> Inl (SectionNotFound section))"

definition addSection :: "string \<Rightarrow> sConfParser \<Rightarrow> sConfParser" where
  "addSection section this =
     (let sectionName = trimQuotes (trim section)
      in if map_of (data this) sectionName = None
         then this\<lparr>data := AList.update sectionName [] (data this)\<rparr>
         else this)"

definition setKey :: "string \<Rightarrow> string \<Rightarrow> sConfValue \<Rightarrow> sConfParser \<Rightarrow> error + sConfParser" where
  "setKey section key val this =
     (let sectionName = trimQuotes (trim section);
          keyName = trimQuotes (trim key)
      in case map_of (data this) sectionName of
           None \<Rightarrow> Inl (SectionNotFound section)
         | Some keys \<Rightarrow>
             Inr (this\<lparr>data := AList.update sectionName (AList.update keyName val keys) (data this)\<rparr>))"

definition removeSection :: "string \<Rightarrow> sConfParser \<Rightarrow> error + sConfParser" where
  "removeSection section this =
     (let sectionName = trimQuotes section
      in if map_of (data this) sectionName = None then Inl (SectionNotFound section)
         else Inr (this\<lparr>data := AList.delete sectionName (data this),
                         comments := AList.delete sectionName (comments this)\<rparr>))"

definition hasSection :: "string \<Rightarrow> sConfParser \<Rightarrow> bool" where
  "hasSection section this \<longleftrightarrow> map_of (data this) (trimQuotes (trim section)) \<noteq> None"

definition getSectionKeyPair :: "string \<Rightarrow> sConfParser \<Rightarrow> error + section_map" where
  "getSectionKeyPair section this =
     (case map_of (data this) (trimQuotes (trim section)) of
        Some keys \<Rightarrow> Inr keys
      | None \<Rightarrow> Inl (SectionNotFound section))"

definition hasSectionPairByKey :: "string \<Rightarrow> string \<Rightarrow> sConfParser \<Rightarrow> bool" where
  "hasSectionPairByKey section key this =
     (case map_of (data this) (trimQuotes (trim section)) of
        None \<Rightarrow> False
      | Some keys \<Rightarrow> map_of keys (trimQuotes (trim key)) \<noteq> None)"

definition removeSectionPairByKey :: "string \<Rightarrow> string \<Rightarrow> sConfParser \<Rightarrow> error + sConfParser" where
  "removeSectionPairByKey section key this =
     (let keyName = trimQuotes (trim key);
          sectionName = trimQuotes (trim section)
      in case map_of (data this) sectionName of
           None \<Rightarrow> Inl (KeyNotFoundInSection keyName)
         | Some keys \<Rightarrow>
             if map_of keys keyName = None then Inl (KeyNotFoundInSection keyName)
             else Inr (this\<lparr>data := AList.update sectionName (AList.delete keyName keys) (data this)\<rparr>))"

definition isSectionPairArray :: "string \<Rightarrow> string \<Rightarrow> sConfParser \<Rightarrow> error + bool" where
  "isSectionPairArray section key this =
     (let sectionName = trimQuotes (trim section);
          keyName = trimQuotes (trim key)
      in case map_of (data this) sectionName of
           None \<Rightarrow> Inl (SectionNotFound sectionName)
         | Some keys \<Rightarrow>
             (case map_of keys keyName of
                None \<Rightarrow> Inl (KeyNotFound keyName)
              | Some v \<Rightarrow> Inr (value_isArray v)))"

definition isSectionPairSingleString :: "string \<Rightarrow> string \<Rightarrow> sConfParser \<Rightarrow> error + bool" where
  "isSectionPairSingleString section key this =
     (let sectionName = trimQuotes (trim section);
          keyName = trimQuotes (trim key)
      in case map_of (data this) sectionName of
           None \<Rightarrow> Inl (SectionNotFound sectionName)
         | Some keys \<Rightarrow>
             (case map_of keys keyName of
                None \<Rightarrow> Inl (KeyNotFound keyName)
              | Some v \<Rightarrow> Inr (\<not> value_isArray v)))"

definition getSectionComment :: "string \<Rightarrow> sConfParser \<Rightarrow> error + string list" where
  "getSectionComment section this =
     (let sectionName = trimQuotes (trim section)
      in case map_of (comments this) sectionName of
           Some lines \<Rightarrow> Inr lines
         | None \<Rightarrow> Inl (SectionNotFound sectionName))"

definition hasSectionComment :: "string \<Rightarrow> sConfParser \<Rightarrow> bool" where
  "hasSectionComment section this =
     (case map_of (comments this) (trimQuotes (trim section)) of
        None \<Rightarrow> False
      | Some lines \<Rightarrow> lines \<noteq> [])"

definition removeSectionComment :: "string \<Rightarrow> sConfParser \<Rightarrow> sConfParser" where
  "removeSectionComment section this =
     (let sectionName = trimQuotes (trim section)
      in case map_of (comments this) sectionName of
           None \<Rightarrow> this
         | Some lines \<Rightarrow> this\<lparr>comments := AList.update sectionName [] (comments this)\<rparr>)"

section \<open>Round trip: the conditions and the comparison\<close>

text \<open>
  \<open>save\<close> writes names and strings as they are stored, without quotes, so what \<open>load\<close>
  reads back depends on their characters. A section name is plain when \<open>trim\<close> and
  \<open>trimQuotes\<close> leave it as it is. A scalar string is plain when \<open>trim\<close> leaves it as it is
  and it has none of the characters \<open>, ; [ ]\<close> and the double quote. A value is plain when
  its strings are, at every depth, and no array in it is the array of one empty string.
  An entry \<open>key = value\<close> is plain when the key is unchanged by \<open>trim\<close> and \<open>trimQuotes\<close>,
  does not begin with \<open>;\<close>, does not begin with \<open>[\<close> when the value is an array, and the
  value is plain.
\<close>

definition plain_name :: "string \<Rightarrow> bool" where
  "plain_name s \<longleftrightarrow> trim s = s \<and> trimQuotes s = s"

definition plain_string :: "string \<Rightarrow> bool" where
  "plain_string s \<longleftrightarrow>
     trim s = s \<and> list_all (\<lambda>c. c \<notin> {CHR '','', CHR '';'', CHR ''['', CHR '']'', dquote}) s"

fun plain_value :: "sConfValue \<Rightarrow> bool" where
  "plain_value (SConfValue s vs t) =
     (if t = Array then vs \<noteq> [sConfValue_string []] \<and> (\<forall>v\<in>set vs. plain_value v)
      else plain_string s)"

definition plain_entry :: "string \<Rightarrow> sConfValue \<Rightarrow> bool" where
  "plain_entry k v \<longleftrightarrow>
     trim k = k \<and> trimQuotes k = k \<and> take 1 k \<noteq> '';''
     \<and> \<not> (take 1 k = ''['' \<and> type v = Array) \<and> plain_value v"

definition round_trippable :: "sConfParser \<Rightarrow> bool" where
  "round_trippable this \<longleftrightarrow>
     list_all (\<lambda>(s, keys). plain_name s \<and> list_all (\<lambda>(k, v). plain_entry k v) keys) (data this)"

text \<open>
  The condition that the specification names: no stored scalar string, at any depth, has
  one of the characters \<open>, ; [ ]\<close> and the double quote. \<open>value_chars\<close> is the set of the
  characters of the strings of a value.
\<close>

fun value_chars :: "sConfValue \<Rightarrow> char set" where
  "value_chars (SConfValue s vs t) = set s \<union> (\<Union>v\<in>set vs. value_chars v)"

definition no_raw_delimiters :: "sConfParser \<Rightarrow> bool" where
  "no_raw_delimiters this \<longleftrightarrow>
     list_all (\<lambda>(s, keys). list_all (\<lambda>(k, v).
        value_chars v \<inter> {CHR '','', CHR '';'', CHR ''['', CHR '']'', dquote} = {}) keys) (data this)"

text \<open>
  \<open>reordered this other\<close>: \<open>other\<close> is \<open>this\<close> with the sections of \<open>data\<close>, and the keys
  inside each section, in another order. It stands for the same object under another
  iteration order of the two \<open>std::unordered_map\<close>s.
\<close>

definition reordered :: "sConfParser \<Rightarrow> sConfParser \<Rightarrow> bool" where
  "reordered this other \<longleftrightarrow>
     comments other = comments this
     \<and> distinct (map fst (data other))
     \<and> set (map fst (data other)) = set (map fst (data this))
     \<and> list_all (\<lambda>(s, keys').
           distinct (map fst keys')
           \<and> (case map_of (data this) s of
                 None \<Rightarrow> False
               | Some keys \<Rightarrow> set keys' = set keys)) (data other)"

text \<open>
  Two objects hold the same document when \<open>data\<close> has the same sections, each section the
  same keys, each key the same value, and each section of \<open>data\<close> the same comment lines
  (a section without an entry in \<open>comments\<close> has none).
\<close>

definition same_document :: "sConfParser \<Rightarrow> sConfParser \<Rightarrow> bool" where
  "same_document a b \<longleftrightarrow>
     (\<forall>s. map_option map_of (map_of (data a) s) = map_option map_of (map_of (data b) s))
     \<and> (\<forall>s. map_of (data a) s \<noteq> None \<longrightarrow> subscript (comments a) s [] = subscript (comments b) s [])"

text \<open>
  \<open>reparse\<close>: \<open>save\<close> to a file that can be opened, then \<open>load\<close> that file into a new
  object. It is used on objects that \<open>load\<close> has filled, which hold no double, so the text
  of a double is taken as it is stored.
\<close>

definition reparse :: "sConfParser \<Rightarrow> error + (error option \<times> sConfParser)" where
  "reparse this =
     (case save Inr True this of
        Inl e \<Rightarrow> Inl e
      | Inr text \<Rightarrow> Inr (load (Some text) sConfParser_init))"

section \<open>Round trip: notions used in the proofs\<close>

text \<open>
  A string whose two ends are not spaces (or that is empty) is what \<open>trim\<close> returns and
  what it leaves unchanged.
\<close>

definition ends_ok :: "string \<Rightarrow> bool" where
  "ends_ok m \<longleftrightarrow> m = [] \<or> (\<not> isspace (hd m) \<and> \<not> isspace (last m))"

text \<open>
  \<open>render\<close> is the text that \<open>saveValue\<close> writes for a value made of strings and arrays;
  \<open>join\<close> puts the separator \<open>", "\<close> between the elements.
\<close>

fun join :: "string list \<Rightarrow> string" where
  "join [] = []"
| "join [r] = r"
| "join (r # r' # rs) = r @ '', '' @ join (r' # rs)"

fun render :: "sConfValue \<Rightarrow> string" where
  "render (SConfValue s vs t) = (if t = Array then ''['' @ join (map render vs) @ '']'' else s)"

text \<open>
  The values that \<open>parseLine\<close> stores: a string (without elements), or an array (without
  text) of values that \<open>parseArray\<close> returns. Below the first level \<open>parseArray\<close> works
  on a piece without a comma and returns one element at most; \<open>flat\<close> says so.
\<close>

fun shaped :: "bool \<Rightarrow> sConfValue \<Rightarrow> bool" where
  "shaped flat (SConfValue s vs t) \<longleftrightarrow>
     (t = String \<and> vs = []) \<or>
     (t = Array \<and> s = [] \<and> (flat \<longrightarrow> length vs \<le> 1) \<and> (\<forall>v\<in>set vs. shaped True v))"

text \<open>
  The lines that \<open>save\<close> writes, without their newlines: for a section, its comments,
  its header and its entries; \<open>terminated\<close> is the text of a list of lines.
\<close>

definition entry_line :: "string \<times> sConfValue \<Rightarrow> string" where
  "entry_line kv = fst kv @ CHR '' '' # CHR ''='' # CHR '' '' # render (snd kv)"

definition section_lines :: "(string \<times> string list) list \<Rightarrow> string \<times> section_map \<Rightarrow> string list" where
  "section_lines cs sec =
     map (\<lambda>c. CHR '';'' # CHR '' '' # c) (subscript cs (fst sec) [])
     @ [CHR ''['' # fst sec @ '']''] @ map entry_line (snd sec)"

definition document_lines :: "(string \<times> string list) list \<Rightarrow> (string \<times> section_map) list \<Rightarrow> string list" where
  "document_lines cs d = concat (map (section_lines cs) d)"

definition terminated :: "string list \<Rightarrow> string" where
  "terminated ls = concat (map (\<lambda>l. l @ [newline]) ls)"

text \<open>What the proof of the round trip needs of an entry and of a section.\<close>

definition entry_ok :: "string \<times> sConfValue \<Rightarrow> bool" where
  "entry_ok kv \<longleftrightarrow>
     plain_entry (fst kv) (snd kv) \<and> CHR ''='' \<notin> set (fst kv) \<and> shaped False (snd kv)"

definition section_ok :: "(string \<times> string list) list \<Rightarrow> string \<times> section_map \<Rightarrow> bool" where
  "section_ok cs sec \<longleftrightarrow>
     plain_name (fst sec) \<and> snd sec \<noteq> [] \<and> distinct (map fst (snd sec))
     \<and> (\<forall>kv\<in>set (snd sec). entry_ok kv)
     \<and> (\<forall>c\<in>set (subscript cs (fst sec) []). trim c = c)"

definition section_clean :: "(string \<times> string list) list \<Rightarrow> string \<times> section_map \<Rightarrow> bool" where
  "section_clean cs sec \<longleftrightarrow>
     newline \<notin> set (fst sec)
     \<and> (\<forall>kv\<in>set (snd sec). newline \<notin> set (fst kv) \<and> newline \<notin> value_chars (snd kv))
     \<and> (\<forall>c\<in>set (subscript cs (fst sec) []). newline \<notin> set c)"

text \<open>
  What holds of every object that \<open>load\<close> has filled from a text, starting from the empty
  object: no name, string or comment has a newline, no key has \<open>=\<close>, no section is
  without keys, the keys of a map are distinct, values are shaped as above, comments are
  trimmed.
\<close>

definition parsed_entry :: "string \<times> sConfValue \<Rightarrow> bool" where
  "parsed_entry kv \<longleftrightarrow>
     CHR ''='' \<notin> set (fst kv) \<and> newline \<notin> set (fst kv)
     \<and> shaped False (snd kv) \<and> newline \<notin> value_chars (snd kv)"

definition parsed_section :: "string \<times> section_map \<Rightarrow> bool" where
  "parsed_section sec \<longleftrightarrow>
     newline \<notin> set (fst sec) \<and> snd sec \<noteq> [] \<and> distinct (map fst (snd sec))
     \<and> (\<forall>kv\<in>set (snd sec). parsed_entry kv)"

definition parsed_comments :: "string list \<Rightarrow> bool" where
  "parsed_comments cs \<longleftrightarrow> (\<forall>c\<in>set cs. trim c = c \<and> newline \<notin> set c)"

definition parsed_state :: "sConfParser \<Rightarrow> bool" where
  "parsed_state this \<longleftrightarrow>
     distinct (map fst (data this)) \<and> (\<forall>sec\<in>set (data this). parsed_section sec)
     \<and> (\<forall>ent\<in>set (comments this). parsed_comments (snd ent))"

section \<open>Quote stripping\<close>

lemma trimQuotes_wrapped: "trimQuotes (dquote # u @ [dquote]) = u"
  by (simp add: trimQuotes_def substr_def)

lemma wrapped_decompose:
  assumes "length s \<ge> 2" "hd s = dquote" "last s = dquote"
  shows "\<exists>u. s = dquote # u @ [dquote]"
proof -
  from assms(1) obtain c t where s: "s = c # t" and t: "t \<noteq> []"
    by (cases s; cases "tl s") auto
  from t have "t = butlast t @ [last t]" by simp
  with s assms(2,3) t have "s = dquote # butlast t @ [dquote]" by simp
  then show ?thesis by blast
qed

lemma trimQuotes_fixed_iff: "trimQuotes s = s \<longleftrightarrow> \<not> (\<exists>u. s = dquote # u @ [dquote])"
proof
  assume fixed: "trimQuotes s = s"
  show "\<not> (\<exists>u. s = dquote # u @ [dquote])"
  proof
    assume "\<exists>u. s = dquote # u @ [dquote]"
    then obtain u where "s = dquote # u @ [dquote]" by blast
    with fixed trimQuotes_wrapped [of u] show False by simp
  qed
next
  assume "\<not> (\<exists>u. s = dquote # u @ [dquote])"
  with wrapped_decompose [of s] show "trimQuotes s = s"
    by (auto simp: trimQuotes_def)
qed

text \<open>
  C6, as the code has it. \<open>trimQuotes\<close> strips one pair of quotes and is not recursive, so
  applying it twice gives the same as applying it once exactly when the string does not
  begin and end with two quotes: \<open>trimQuotes (trimQuotes s) = trimQuotes s\<close> if and only
  if \<open>s\<close> is not of the form \<open>""t""\<close>.
\<close>

theorem trimQuotes_twice:
  "trimQuotes (trimQuotes s) = trimQuotes s \<longleftrightarrow>
     \<not> (\<exists>t. s = dquote # dquote # t @ [dquote, dquote])"
proof (cases "\<exists>u. s = dquote # u @ [dquote]")
  case True
  then obtain u where s: "s = dquote # u @ [dquote]" by blast
  have "trimQuotes (trimQuotes s) = trimQuotes s \<longleftrightarrow> trimQuotes u = u"
    by (simp add: s trimQuotes_wrapped)
  also have "\<dots> \<longleftrightarrow> \<not> (\<exists>t. u = dquote # t @ [dquote])"
    by (rule trimQuotes_fixed_iff)
  also have "\<dots> \<longleftrightarrow> \<not> (\<exists>t. s = dquote # dquote # t @ [dquote, dquote])"
    by (simp add: s)
  finally show ?thesis .
next
  case False
  then have "trimQuotes s = s" by (simp add: trimQuotes_fixed_iff)
  moreover from False have "\<not> (\<exists>t. s = dquote # dquote # t @ [dquote, dquote])"
    by (metis append_Cons append_assoc append_Nil)
  ultimately show ?thesis by simp
qed

text \<open>The theorem at the string \<open>"a"\<close>, which has one pair of quotes.\<close>

theorem trimQuotes_twice_witness:
  "trimQuotes (trimQuotes [dquote, CHR ''a'', dquote]) = trimQuotes [dquote, CHR ''a'', dquote]"
  using trimQuotes_twice [of "[dquote, CHR ''a'', dquote]"] by simp

text \<open>
  C6 as stated (idempotence for every string) fails at \<open>""a""\<close>: one application gives
  \<open>"a"\<close>, a second one gives \<open>a\<close>.
\<close>

theorem trimQuotes_not_idempotent:
  "trimQuotes (trimQuotes [dquote, dquote, CHR ''a'', dquote, dquote])
     \<noteq> trimQuotes [dquote, dquote, CHR ''a'', dquote, dquote]"
  by (simp add: trimQuotes_def substr_def)

section \<open>Arrays\<close>

text \<open>
  C2. \<open>isArray\<close> holds of \<open>[1, 2, 3]\<close>. \<open>parseArray\<close> splits the text between the outer
  brackets at every comma, also at the comma inside the inner brackets, so
  \<open>[1, 2, [3, 4]]\<close> gives four strings, \<open>1\<close>, \<open>2\<close>, \<open>[3\<close> and \<open>4]\<close>, and no nested array.
\<close>

theorem parseArray_nested_split:
  "isArray ''[1, 2, 3]'' \<and>
   parseArray ''[1, 2, [3, 4]]'' =
     [sConfValue_string ''1'', sConfValue_string ''2'',
      sConfValue_string ''[3'', sConfValue_string ''4]'']"
  by (simp add: parseArray.simps getlines.simps substr_def trim_def trimQuotes_def
      isspace_def isArray_def Let_def)

text \<open>
  A nested array without a comma is parsed as an array: the recursive call of
  \<open>parseArray\<close> is there for nested arrays, and the split at every comma keeps it from
  the nested arrays of two elements or more.
\<close>

lemma parseArray_nested_single:
  "parseArray ''[1, [2]]'' = [sConfValue_string ''1'', sConfValue_array [sConfValue_string ''2'']]"
  by (simp add: parseArray.simps getlines.simps substr_def trim_def trimQuotes_def
      isspace_def isArray_def Let_def)

section \<open>The serialiser's default case\<close>

text \<open>
  C3. The \<open>switch\<close> of \<open>saveValue\<close> has no case for \<open>Date\<close>: a value built from a
  \<open>std::tm\<close> reaches \<open>default\<close> and the exception "Unsupported value type".
\<close>

theorem saveValue_date_unsupported:
  "saveValue showDouble (sConfValue_date t) = Inl UnsupportedValueType"
  by (simp add: sConfValue_date_def)

text \<open>
  No other value reaches the default case: when \<open>saveValue\<close> raises "Unsupported value
  type" (and the formatting of doubles does not), the value has a date.
\<close>

lemma saveValue_unsupported_is_date:
  assumes "\<forall>s. showDouble s \<noteq> Inl UnsupportedValueType"
  shows "saveValue showDouble v = Inl UnsupportedValueType \<Longrightarrow> has_date v"
    and "saveValues showDouble vs = Inl UnsupportedValueType \<Longrightarrow> \<exists>v\<in>set vs. has_date v"
  using assms
proof (induction showDouble v and showDouble vs rule: saveValue_saveValues.induct)
  case (1 showDouble s vs t)
  then show ?case
    by (cases t)
      (auto simp: getString_def getInteger_def getBoolean_def stoi_def Let_def
        split: sum.splits if_splits)
next
  case (2 showDouble)
  then show ?case by simp
next
  case (3 showDouble v rest)
  then show ?case by (auto split: sum.splits if_splits)
qed

section \<open>Normalisation of names in the public operations\<close>

text \<open>
  C4. \<open>removeSection\<close> strips the quotes of its argument and does not trim it, where
  every other operation trims first. The names \<open>foo\<close> and \<open> foo \<close> (with a space on
  each side) have one normal form and \<open>hasSection\<close> finds the section under both, but
  \<open>removeSection\<close> removes it under the first only and raises "Section not found" under
  the second.
\<close>

theorem removeSection_not_trimmed:
  "trimQuotes (trim '' foo '') = trimQuotes (trim ''foo'')
   \<and> hasSection '' foo '' (addSection ''foo'' sConfParser_init)
   \<and> hasSection ''foo'' (addSection ''foo'' sConfParser_init)
   \<and> removeSection ''foo'' (addSection ''foo'' sConfParser_init) = Inr sConfParser_init
   \<and> removeSection '' foo '' (addSection ''foo'' sConfParser_init) = Inl (SectionNotFound '' foo '')"
  by (simp add: hasSection_def addSection_def removeSection_def sConfParser_init_def
      trim_def trimQuotes_def isspace_def substr_def Let_def)

text \<open>
  The other operations read the section through \<open>trimQuotes (trim section)\<close>: two
  arguments with one normal form give the same result (for the three operations that put
  the argument as given into the message of "Section not found", the same result up to
  that message).
\<close>

lemma same_normal_form:
  assumes "trimQuotes (trim a) = trimQuotes (trim b)"
  shows "hasSection a this = hasSection b this"
    and "addSection a this = addSection b this"
    and "hasSectionPairByKey a key this = hasSectionPairByKey b key this"
    and "removeSectionPairByKey a key this = removeSectionPairByKey b key this"
    and "isSectionPairArray a key this = isSectionPairArray b key this"
    and "isSectionPairSingleString a key this = isSectionPairSingleString b key this"
    and "getSectionComment a this = getSectionComment b this"
    and "hasSectionComment a this = hasSectionComment b this"
    and "removeSectionComment a this = removeSectionComment b this"
    and "map_sum (\<lambda>e. ()) id (getSection a this) = map_sum (\<lambda>e. ()) id (getSection b this)"
    and "map_sum (\<lambda>e. ()) id (getSectionKeyPair a this) = map_sum (\<lambda>e. ()) id (getSectionKeyPair b this)"
    and "map_sum (\<lambda>e. ()) id (setKey a key v this) = map_sum (\<lambda>e. ()) id (setKey b key v this)"
  using assms
  by (simp_all add: hasSection_def addSection_def hasSectionPairByKey_def
      removeSectionPairByKey_def isSectionPairArray_def isSectionPairSingleString_def
      getSectionComment_def hasSectionComment_def removeSectionComment_def getSection_def
      getSectionKeyPair_def setKey_def Let_def split: option.splits)

section \<open>Line by line: the parser\<close>

lemma find_char_eq: "c \<in> set s \<Longrightarrow> find_char c s = Some (length (takeWhile (\<lambda>x. x \<noteq> c) s))"
  by (simp add: find_char_def)

lemma substr_0_takeWhile:
  "substr s 0 (length (takeWhile P s)) = takeWhile P s"
  by (simp add: substr_def takeWhile_eq_take [symmetric])

lemma parseLine_blank: "is_blank line \<Longrightarrow> parseLine line cur buf this = Inr (cur, buf, this)"
  by (simp add: parseLine_def is_blank_def)

lemma parseLine_comment:
  "is_comment line \<Longrightarrow>
     parseLine line cur buf this = Inr (cur, buf @ [trim (drop 1 (trim line))], this)"
  by (simp add: parseLine_def is_comment_def)

lemma parseLine_header:
  "is_section_header line \<Longrightarrow>
     parseLine line cur buf this =
       Inr (section_of line, [],
            this\<lparr>comments := AList.update (section_of line)
              (subscript (comments this) (section_of line) [] @ buf) (comments this)\<rparr>)"
  by (simp add: parseLine_def is_section_header_def section_of_def Let_def)

lemma key_value_branch:
  assumes "is_key_value line"
  shows "trim line \<noteq> []" and "hd (trim line) \<noteq> CHR '';''"
    and "\<not> (hd (trim line) = CHR ''['' \<and> last (trim line) = CHR '']'')"
  using assms by (auto simp: is_key_value_def is_section_header_def)

lemma parseLine_malformed:
  assumes "is_key_value line" and "CHR ''='' \<notin> set (trim line)"
  shows "parseLine line cur buf this = Inl (InvalidKeyValuePair line)"
  unfolding parseLine_def Let_def
  by (simp only: key_value_branch [OF assms(1)] if_False find_char_def assms(2) option.case)

lemma parseLine_key_value:
  assumes "is_key_value line" and "CHR ''='' \<in> set (trim line)"
  shows "parseLine line cur buf this =
     Inr (cur, [], this\<lparr>data := AList.update cur
        (AList.update (key_of line) (value_of line) (subscript (data this) cur [])) (data this)\<rparr>)"
  unfolding parseLine_def Let_def
  by (simp only: key_value_branch [OF assms(1)] if_False find_char_eq [OF assms(2)] option.case
      key_of_def value_of_def value_text_def substr_0_takeWhile Let_def)

text \<open>
  C7. What one call of \<open>parseLine\<close> does to the comment buffer and to the two stores, by
  the kind of the line: a blank line changes nothing; a comment line appends its text to
  the buffer and changes nothing else; a section header empties the buffer, leaves
  \<open>data\<close> as it is (the section is not created there) and records the section in
  \<open>comments\<close>, with the buffered comments appended to those it had (none when it was
  absent); a key=value line empties the buffer, leaves \<open>comments\<close> as it is and puts the
  key under the current section of \<open>data\<close>, which exists from then on.
\<close>

theorem parseLine_comment_buffer:
  "(is_blank line \<longrightarrow> parseLine line cur buf this = Inr (cur, buf, this)) \<and>
   (is_comment line \<longrightarrow>
      parseLine line cur buf this = Inr (cur, buf @ [trim (drop 1 (trim line))], this)) \<and>
   (is_section_header line \<longrightarrow>
      (\<exists>this'. parseLine line cur buf this = Inr (section_of line, [], this')
         \<and> data this' = data this
         \<and> map_of (comments this') (section_of line)
              = Some (subscript (comments this) (section_of line) [] @ buf)
         \<and> (\<forall>s. s \<noteq> section_of line \<longrightarrow> map_of (comments this') s = map_of (comments this) s))) \<and>
   (is_key_value line \<and> CHR ''='' \<in> set (trim line) \<longrightarrow>
      (\<exists>this'. parseLine line cur buf this = Inr (cur, [], this')
         \<and> comments this' = comments this
         \<and> has_key cur (key_of line) this'
         \<and> (\<forall>s. s \<noteq> cur \<longrightarrow> map_of (data this') s = map_of (data this) s)))"
proof (intro conjI impI)
  assume "is_blank line"
  then show "parseLine line cur buf this = Inr (cur, buf, this)" by (rule parseLine_blank)
next
  assume "is_comment line"
  then show "parseLine line cur buf this = Inr (cur, buf @ [trim (drop 1 (trim line))], this)"
    by (rule parseLine_comment)
next
  assume "is_section_header line"
  then show "\<exists>this'. parseLine line cur buf this = Inr (section_of line, [], this')
         \<and> data this' = data this
         \<and> map_of (comments this') (section_of line)
              = Some (subscript (comments this) (section_of line) [] @ buf)
         \<and> (\<forall>s. s \<noteq> section_of line \<longrightarrow> map_of (comments this') s = map_of (comments this) s)"
    by (simp add: parseLine_header update_conv')
next
  assume "is_key_value line \<and> CHR ''='' \<in> set (trim line)"
  then have "parseLine line cur buf this =
     Inr (cur, [], this\<lparr>data := AList.update cur
        (AList.update (key_of line) (value_of line) (subscript (data this) cur [])) (data this)\<rparr>)"
    using parseLine_key_value by blast
  then show "\<exists>this'. parseLine line cur buf this = Inr (cur, [], this')
         \<and> comments this' = comments this
         \<and> has_key cur (key_of line) this'
         \<and> (\<forall>s. s \<noteq> cur \<longrightarrow> map_of (data this') s = map_of (data this) s)"
    by (simp add: has_key_def update_conv')
qed

lemma parseLines_append:
  "parseLines (xs @ ys) cur buf this =
     (case parseLines xs cur buf this of
        (None, cur', buf', this') \<Rightarrow> parseLines ys cur' buf' this'
      | (Some e, cur', buf', this') \<Rightarrow> (Some e, cur', buf', this'))"
  by (induction xs arbitrary: cur buf this) (auto split: sum.splits)

lemma parseLines_blank_comment:
  "\<forall>x\<in>set pre. is_blank x \<or> is_comment x \<Longrightarrow>
     \<exists>buf'. parseLines pre cur buf this = (None, cur, buf', this)"
proof (induction pre arbitrary: buf)
  case Nil
  then show ?case by simp
next
  case (Cons x pre)
  then have "is_blank x \<or> is_comment x" by simp
  then show ?case
  proof
    assume "is_blank x"
    with Cons show ?thesis by (simp add: parseLine_blank)
  next
    assume "is_comment x"
    with Cons show ?thesis by (simp add: parseLine_comment)
  qed
qed

lemma line_cases:
  "is_blank line \<or> is_comment line \<or> is_section_header line \<or> is_key_value line"
  by (auto simp: is_blank_def is_comment_def is_section_header_def is_key_value_def)

lemma parseLine_keeps_key:
  assumes "parseLine line cur buf this = Inr (cur', buf', this')" and "has_key s k this"
  shows "has_key s k this'"
proof -
  consider "is_blank line" | "is_comment line" | "is_section_header line"
    | "is_key_value line" "CHR ''='' \<notin> set (trim line)"
    | "is_key_value line" "CHR ''='' \<in> set (trim line)"
    using line_cases by blast
  then show ?thesis
  proof cases
    case 1
    with assms show ?thesis by (simp add: parseLine_blank)
  next
    case 2
    with assms show ?thesis by (simp add: parseLine_comment)
  next
    case 3
    with assms show ?thesis by (auto simp: parseLine_header has_key_def)
  next
    case 4
    with assms show ?thesis by (simp add: parseLine_malformed)
  next
    case 5
    with assms(1) have this': "this' = this\<lparr>data := AList.update cur
        (AList.update (key_of line) (value_of line) (subscript (data this) cur [])) (data this)\<rparr>"
      by (auto simp: parseLine_key_value)
    from assms(2) show ?thesis
      by (auto simp: this' has_key_def update_conv' subscript_def split: option.splits)
  qed
qed

lemma parseLines_keeps_key:
  "parseLines ls cur buf this = (e, cur', buf', this') \<Longrightarrow> has_key s k this \<Longrightarrow> has_key s k this'"
proof (induction ls arbitrary: cur buf this)
  case Nil
  then show ?case by simp
next
  case (Cons l ls)
  show ?case
  proof (cases "parseLine l cur buf this")
    case (Inl err)
    with Cons.prems show ?thesis by simp
  next
    case (Inr r)
    obtain c b t where r: "r = (c, b, t)" by (cases r)
    from Inr r Cons.prems(2) have "has_key s k t" by (auto dest: parseLine_keeps_key)
    moreover from Inr r Cons.prems(1) have "parseLines ls c b t = (e, cur', buf', this')" by simp
    ultimately show ?thesis by (rule Cons.IH [rotated])
  qed
qed

text \<open>
  C9. When the first line that is neither blank nor a comment is a key=value line, the
  object that \<open>load\<close> leaves has its key under the section named by the empty string,
  whatever the lines after it are (also when one of them makes \<open>load\<close> raise).
\<close>

theorem key_before_first_header:
  assumes "\<forall>x\<in>set pre. is_blank x \<or> is_comment x"
    and "is_key_value line" and "CHR ''='' \<in> set (trim line)"
    and "load_lines (pre @ line # post) this = (e, this')"
  shows "has_key [] (key_of line) this'"
proof -
  from assms(1) obtain buf where pre: "parseLines pre [] [] this = (None, [], buf, this)"
    using parseLines_blank_comment by blast
  define this1 where "this1 = this\<lparr>data := AList.update []
        (AList.update (key_of line) (value_of line) (subscript (data this) [] [])) (data this)\<rparr>"
  have step: "parseLine line [] buf this = Inr ([], [], this1)"
    unfolding this1_def using assms(2,3) by (rule parseLine_key_value)
  have key: "has_key [] (key_of line) this1"
    by (simp add: this1_def has_key_def update_conv')
  obtain c b where rest: "parseLines post [] [] this1 = (e, c, b, this')"
    using assms(4) by (auto simp: load_lines_def parseLines_append pre step split: prod.splits)
  from rest key show ?thesis by (rule parseLines_keeps_key)
qed

text \<open>
  C10. When the lines before a line without \<open>=\<close> load without an exception, \<open>load\<close>
  raises "Invalid key-value pair" at that line and leaves the object exactly as loading
  the lines before it alone leaves it: nothing is rolled back.
\<close>

theorem load_not_atomic:
  assumes "load_lines pre this = (None, this1)"
    and "is_key_value bad" and "CHR ''='' \<notin> set (trim bad)"
  shows "load_lines (pre @ bad # post) this = (Some (InvalidKeyValuePair bad), this1)"
proof -
  from assms(1) obtain cur buf where "parseLines pre [] [] this = (None, cur, buf, this1)"
    by (auto simp: load_lines_def split: prod.splits)
  moreover have "parseLine bad cur buf this1 = Inl (InvalidKeyValuePair bad)"
    using assms(2,3) by (rule parseLine_malformed)
  ultimately show ?thesis
    by (simp add: load_lines_def parseLines_append)
qed

lemmas eval_defs = trim_def trimQuotes_def isspace_def substr_def isArray_def Let_def
  is_blank_def is_comment_def is_section_header_def is_key_value_def key_of_def section_of_def
  value_text_def value_of_def find_char_def subscript_def has_key_def
  parseLine_def load_lines_def sConfParser_init_def sConfValue_string_def sConfValue_array_def
  parseArray.simps getlines.simps

text \<open>The theorem at a file of a comment, a blank line, \<open>k = v\<close> and a section after it.\<close>

theorem key_before_first_header_witness:
  "list_all (\<lambda>x. is_blank x \<or> is_comment x) [''; c'', '''']
   \<and> is_key_value ''k = v'' \<and> CHR ''='' \<in> set (trim ''k = v'')
   \<and> has_key [] ''k'' (snd (load_lines ([''; c'', ''''] @ ''k = v'' # [''[s]'', ''x = 1'']) sConfParser_init))"
  using key_before_first_header [of "[''; c'', '''']" "''k = v''" "[''[s]'', ''x = 1'']" sConfParser_init
      "fst (load_lines ([''; c'', ''''] @ ''k = v'' # [''[s]'', ''x = 1'']) sConfParser_init)"
      "snd (load_lines ([''; c'', ''''] @ ''k = v'' # [''[s]'', ''x = 1'']) sConfParser_init)"]
  by (simp add: trim_def isspace_def is_blank_def is_comment_def is_key_value_def
      is_section_header_def key_of_def trimQuotes_def Let_def)


text \<open>The theorem at a file whose fourth line, \<open>oops\<close>, has no \<open>=\<close>.\<close>

theorem load_not_atomic_witness:
  "load_lines [''; c'', ''[s]'', ''k = v''] sConfParser_init
     = (None, \<lparr>data = [(''s'', [(''k'', sConfValue_string ''v'')])], comments = [(''s'', [''c''])]\<rparr>)
   \<and> is_key_value ''oops'' \<and> CHR ''='' \<notin> set (trim ''oops'')
   \<and> load_lines ([''; c'', ''[s]'', ''k = v''] @ ''oops'' # [''y = 2'']) sConfParser_init
     = (Some (InvalidKeyValuePair ''oops''),
        \<lparr>data = [(''s'', [(''k'', sConfValue_string ''v'')])], comments = [(''s'', [''c''])]\<rparr>)"
proof -
  have a: "load_lines [''; c'', ''[s]'', ''k = v''] sConfParser_init
     = (None, \<lparr>data = [(''s'', [(''k'', sConfValue_string ''v'')])], comments = [(''s'', [''c''])]\<rparr>)"
    by (simp add: eval_defs)
  have b: "is_key_value ''oops''" and c: "CHR ''='' \<notin> set (trim ''oops'')"
    by (simp_all add: eval_defs)
  from load_not_atomic [OF a b c, of "[''y = 2'']"] a b c show ?thesis by simp
qed

text \<open>
  The theorem at a blank line, a comment line, a section header and a key=value line,
  with the current section \<open>s\<close> and one buffered comment.
\<close>

theorem parseLine_comment_buffer_witness:
  "is_blank ''  '' \<and> parseLine ''  '' ''s'' [''c''] sConfParser_init = Inr (''s'', [''c''], sConfParser_init)
   \<and> is_comment ''; d'' \<and> parseLine ''; d'' ''s'' [''c''] sConfParser_init = Inr (''s'', [''c'', ''d''], sConfParser_init)
   \<and> is_section_header ''[t]''
   \<and> (\<exists>this'. parseLine ''[t]'' ''s'' [''c''] sConfParser_init = Inr (''t'', [], this')
         \<and> data this' = [] \<and> map_of (comments this') ''t'' = Some [''c''])
   \<and> is_key_value ''k = v'' \<and> CHR ''='' \<in> set (trim ''k = v'')
   \<and> (\<exists>this'. parseLine ''k = v'' ''s'' [''c''] sConfParser_init = Inr (''s'', [], this')
         \<and> comments this' = [] \<and> has_key ''s'' ''k'' this')"
proof -
  have b: "is_blank ''  ''" and c: "is_comment ''; d''" and h: "is_section_header ''[t]''"
    and k: "is_key_value ''k = v''" and e: "CHR ''='' \<in> set (trim ''k = v'')"
    by (simp_all add: trim_def isspace_def is_blank_def is_comment_def is_section_header_def
        is_key_value_def)
  have v: "trim (drop 1 (trim ''; d'')) = ''d''" "section_of ''[t]'' = ''t''" "key_of ''k = v'' = ''k''"
    by (simp_all add: trim_def isspace_def section_of_def key_of_def trimQuotes_def substr_def)
  from parseLine_comment_buffer [of "''  ''" "''s''" "[''c'']" sConfParser_init] b
  have 1: "parseLine ''  '' ''s'' [''c''] sConfParser_init = Inr (''s'', [''c''], sConfParser_init)"
    by blast
  from parseLine_comment_buffer [of "''; d''" "''s''" "[''c'']" sConfParser_init] c v
  have 2: "parseLine ''; d'' ''s'' [''c''] sConfParser_init = Inr (''s'', [''c'', ''d''], sConfParser_init)"
    by simp
  from parseLine_comment_buffer [of "''[t]''" "''s''" "[''c'']" sConfParser_init] h
  have "\<exists>this'. parseLine ''[t]'' ''s'' [''c''] sConfParser_init = Inr (section_of ''[t]'', [], this')
         \<and> data this' = data sConfParser_init
         \<and> map_of (comments this') (section_of ''[t]'')
              = Some (subscript (comments sConfParser_init) (section_of ''[t]'') [] @ [''c''])"
    by blast
  then have 3: "\<exists>this'. parseLine ''[t]'' ''s'' [''c''] sConfParser_init = Inr (''t'', [], this')
         \<and> data this' = [] \<and> map_of (comments this') ''t'' = Some [''c'']"
    by (simp add: v subscript_def sConfParser_init_def)
  from parseLine_comment_buffer [of "''k = v''" "''s''" "[''c'']" sConfParser_init] k e
  have "\<exists>this'. parseLine ''k = v'' ''s'' [''c''] sConfParser_init = Inr (''s'', [], this')
         \<and> comments this' = comments sConfParser_init \<and> has_key ''s'' (key_of ''k = v'') this'"
    by blast
  then have 4: "\<exists>this'. parseLine ''k = v'' ''s'' [''c''] sConfParser_init = Inr (''s'', [], this')
         \<and> comments this' = [] \<and> has_key ''s'' ''k'' this'"
    by (simp add: v sConfParser_init_def)
  from b c h k e 1 2 3 4 show ?thesis by blast
qed

section \<open>Setting and removing keys\<close>

lemma setKey_absent:
  "\<not> hasSection section this \<Longrightarrow> setKey section key v this = Inl (SectionNotFound section)"
  by (simp add: setKey_def hasSection_def)

lemma hasSection_addSection: "hasSection s (addSection s this)"
  by (simp add: hasSection_def addSection_def update_conv' Let_def)

text \<open>
  C8. \<open>setKey\<close> raises "Section not found" when the section (under its normalised
  name) is not in \<open>data\<close>; after \<open>addSection s\<close>, \<open>setKey s k v\<close> succeeds, and
  \<open>getSection s\<close> then returns a map that has \<open>v\<close> under the normalised key.
\<close>

theorem setKey_section_must_exist:
  "(\<not> hasSection section this \<longrightarrow> setKey section key v this = Inl (SectionNotFound section)) \<and>
   (\<exists>this' keys. setKey s k v (addSection s this) = Inr this'
       \<and> getSection s this' = Inr keys
       \<and> map_of keys (trimQuotes (trim k)) = Some v)"
proof
  show "\<not> hasSection section this \<longrightarrow> setKey section key v this = Inl (SectionNotFound section)"
    by (simp add: setKey_absent)
next
  from hasSection_addSection [of s this]
  obtain keys where keys: "map_of (data (addSection s this)) (trimQuotes (trim s)) = Some keys"
    by (auto simp: hasSection_def)
  then show "\<exists>this' keys. setKey s k v (addSection s this) = Inr this'
       \<and> getSection s this' = Inr keys
       \<and> map_of keys (trimQuotes (trim k)) = Some v"
    by (simp add: setKey_def getSection_def update_conv' Let_def)
qed

text \<open>The theorem at the empty object, the section \<open>s\<close> and the key \<open>k\<close>.\<close>

theorem setKey_section_must_exist_witness:
  "\<not> hasSection ''s'' sConfParser_init
   \<and> setKey ''s'' ''k'' (sConfValue_string ''v'') sConfParser_init = Inl (SectionNotFound ''s'')
   \<and> (\<exists>this' keys. setKey ''s'' ''k'' (sConfValue_string ''v'') (addSection ''s'' sConfParser_init) = Inr this'
       \<and> getSection ''s'' this' = Inr keys
       \<and> map_of keys ''k'' = Some (sConfValue_string ''v''))"
proof -
  have n: "\<not> hasSection ''s'' sConfParser_init"
    by (simp add: hasSection_def sConfParser_init_def)
  have t: "trimQuotes (trim ''k'') = ''k''"
    by (simp add: trim_def isspace_def trimQuotes_def)
  from setKey_section_must_exist [of "''s''" sConfParser_init "''k''" "sConfValue_string ''v''" "''s''" "''k''"] n t
  show ?thesis by simp
qed

text \<open>
  C5, as the code has it. \<open>removeSectionPairByKey\<close> raises one and the same exception,
  "Key not found in section: " followed by the normalised key, when the section is absent
  and when the section exists without the key; otherwise it succeeds, the section is
  still there and the key is gone.
\<close>

theorem removeSectionPairByKey_one_error:
  "(\<not> hasSection section this \<longrightarrow>
      removeSectionPairByKey section key this = Inl (KeyNotFoundInSection (trimQuotes (trim key)))) \<and>
   (hasSection section this \<and> \<not> hasSectionPairByKey section key this \<longrightarrow>
      removeSectionPairByKey section key this = Inl (KeyNotFoundInSection (trimQuotes (trim key)))) \<and>
   (hasSectionPairByKey section key this \<longrightarrow>
      (\<exists>this'. removeSectionPairByKey section key this = Inr this'
         \<and> hasSection section this' \<and> \<not> hasSectionPairByKey section key this'))"
  by (auto simp: removeSectionPairByKey_def hasSection_def hasSectionPairByKey_def Let_def
      update_conv' delete_conv' split: option.splits)

text \<open>
  The theorem at the empty object, at an object with the empty section \<open>s\<close>, and at an
  object whose section \<open>s\<close> has the key \<open>k\<close>.
\<close>

theorem removeSectionPairByKey_one_error_witness:
  "\<not> hasSection ''s'' sConfParser_init
   \<and> removeSectionPairByKey ''s'' ''k'' sConfParser_init = Inl (KeyNotFoundInSection ''k'')
   \<and> hasSection ''s'' (addSection ''s'' sConfParser_init)
   \<and> \<not> hasSectionPairByKey ''s'' ''k'' (addSection ''s'' sConfParser_init)
   \<and> removeSectionPairByKey ''s'' ''k'' (addSection ''s'' sConfParser_init) = Inl (KeyNotFoundInSection ''k'')
   \<and> hasSectionPairByKey ''s'' ''k'' \<lparr>data = [(''s'', [(''k'', sConfValue_string ''v'')])], comments = []\<rparr>
   \<and> (\<exists>this'. removeSectionPairByKey ''s'' ''k'' \<lparr>data = [(''s'', [(''k'', sConfValue_string ''v'')])], comments = []\<rparr> = Inr this'
         \<and> hasSection ''s'' this' \<and> \<not> hasSectionPairByKey ''s'' ''k'' this')"
proof -
  have t: "trimQuotes (trim ''k'') = ''k''" "trimQuotes (trim ''s'') = ''s''"
    by (simp_all add: trim_def isspace_def trimQuotes_def)
  have a: "\<not> hasSection ''s'' sConfParser_init"
    and b: "hasSection ''s'' (addSection ''s'' sConfParser_init)"
    and c: "\<not> hasSectionPairByKey ''s'' ''k'' (addSection ''s'' sConfParser_init)"
    and d: "hasSectionPairByKey ''s'' ''k'' \<lparr>data = [(''s'', [(''k'', sConfValue_string ''v'')])], comments = []\<rparr>"
    by (simp_all add: hasSection_def hasSectionPairByKey_def addSection_def sConfParser_init_def t)
  from removeSectionPairByKey_one_error [of "''s''" sConfParser_init "''k''"] a t
  have 1: "removeSectionPairByKey ''s'' ''k'' sConfParser_init = Inl (KeyNotFoundInSection ''k'')"
    by simp
  from removeSectionPairByKey_one_error [of "''s''" "addSection ''s'' sConfParser_init" "''k''"] b c t
  have 2: "removeSectionPairByKey ''s'' ''k'' (addSection ''s'' sConfParser_init) = Inl (KeyNotFoundInSection ''k'')"
    by simp
  from removeSectionPairByKey_one_error [of "''s''" "\<lparr>data = [(''s'', [(''k'', sConfValue_string ''v'')])], comments = []\<rparr>" "''k''"] d
  have 3: "\<exists>this'. removeSectionPairByKey ''s'' ''k'' \<lparr>data = [(''s'', [(''k'', sConfValue_string ''v'')])], comments = []\<rparr> = Inr this'
         \<and> hasSection ''s'' this' \<and> \<not> hasSectionPairByKey ''s'' ''k'' this'"
    by blast
  from a b c d 1 2 3 show ?thesis by blast
qed

text \<open>
  C5 as stated fails on the empty object: the section \<open>s\<close> is absent, and the exception
  is the one raised for an absent key in an existing section, not "Section not found".
\<close>

theorem removeSectionPairByKey_same_error:
  "removeSectionPairByKey ''s'' ''k'' sConfParser_init = Inl (KeyNotFoundInSection ''k'')
   \<and> removeSectionPairByKey ''s'' ''k'' sConfParser_init
       = removeSectionPairByKey ''s'' ''k'' (addSection ''s'' sConfParser_init)
   \<and> removeSectionPairByKey ''s'' ''k'' sConfParser_init \<noteq> Inl (SectionNotFound ''s'')"
  by (simp add: removeSectionPairByKey_def addSection_def sConfParser_init_def
      trim_def isspace_def trimQuotes_def Let_def)

section \<open>Trimming\<close>

lemma takeWhile_spaces_prefix:
  assumes "\<forall>c\<in>set a. isspace c" and "m \<noteq> []" and "\<not> isspace (hd m)"
  shows "takeWhile isspace (a @ m @ b) = a"
proof -
  from assms(2,3) have "takeWhile isspace (m @ b) = []"
    by (cases m) auto
  with assms(1) show ?thesis by (simp add: takeWhile_append2)
qed

lemma trim_core:
  assumes a: "\<forall>c\<in>set a. isspace c" and b: "\<forall>c\<in>set b. isspace c" and m: "ends_ok m"
  shows "trim (a @ m @ b) = m"
proof (cases "m = []")
  case True
  from a b have tw: "takeWhile isspace (a @ b) = a @ b"
    by (auto simp: takeWhile_eq_all_conv)
  have "trim (a @ b) = []"
    unfolding trim_def Let_def tw by simp
  then show ?thesis by (simp add: True)
next
  case False
  with m have hd: "\<not> isspace (hd m)" and last: "\<not> isspace (last m)"
    by (auto simp: ends_ok_def)
  have start: "takeWhile isspace (a @ m @ b) = a"
    using a False hd by (rule takeWhile_spaces_prefix)
  have "takeWhile isspace (rev b @ rev m @ rev a) = rev b"
  proof (rule takeWhile_spaces_prefix)
    show "\<forall>c\<in>set (rev b). isspace c" using b by simp
    show "rev m \<noteq> []" using False by simp
    show "\<not> isspace (hd (rev m))" using last False by (simp add: hd_rev)
  qed
  then have "end": "takeWhile isspace (rev (a @ m @ b)) = rev b" by simp
  from False have "0 < length m" by simp
  then show ?thesis
    unfolding trim_def Let_def start "end" by simp
qed

lemma trim_fixed: "ends_ok s \<Longrightarrow> trim s = s"
  using trim_core [of "[]" "[]" s] by simp

lemma trim_decompose:
  "\<exists>a m b. s = a @ m @ b \<and> (\<forall>c\<in>set a. isspace c) \<and> (\<forall>c\<in>set b. isspace c) \<and> ends_ok m"
proof -
  define a where "a = takeWhile isspace s"
  define r where "r = dropWhile isspace s"
  define b where "b = rev (takeWhile isspace (rev r))"
  define m where "m = rev (dropWhile isspace (rev r))"
  have s: "s = a @ r" by (simp add: a_def r_def)
  have "m @ b = rev (takeWhile isspace (rev r) @ dropWhile isspace (rev r))"
    unfolding m_def b_def by (simp only: rev_append)
  also have "\<dots> = r"
    by (simp only: takeWhile_dropWhile_id rev_rev_ident)
  finally have r: "r = m @ b" by simp
  have sa: "\<forall>c\<in>set a. isspace c" by (auto simp: a_def dest: set_takeWhileD)
  have sb: "\<forall>c\<in>set b. isspace c" by (auto simp: b_def dest: set_takeWhileD)
  have "ends_ok m"
  proof (cases "m = []")
    case True
    then show ?thesis by (simp add: ends_ok_def)
  next
    case False
    then have ne: "dropWhile isspace (rev r) \<noteq> []" by (simp add: m_def)
    then have "\<not> isspace (hd (dropWhile isspace (rev r)))" by (rule hd_dropWhile)
    then have l: "\<not> isspace (last m)" using ne by (simp add: m_def last_rev)
    from False r have "r \<noteq> []" by auto
    then have "\<not> isspace (hd r)" unfolding r_def by (rule hd_dropWhile)
    with False r have "\<not> isspace (hd m)" by (simp add: hd_append)
    with l show ?thesis by (simp add: ends_ok_def)
  qed
  with s r sa sb show ?thesis by blast
qed

lemma ends_ok_trim: "ends_ok (trim s)"
proof -
  obtain a m b where "s = a @ m @ b" "\<forall>c\<in>set a. isspace c" "\<forall>c\<in>set b. isspace c" "ends_ok m"
    using trim_decompose by blast
  then show ?thesis by (simp add: trim_core)
qed

lemma trim_idem: "trim (trim s) = trim s"
  by (rule trim_fixed) (rule ends_ok_trim)

lemma trim_fixed_iff: "trim s = s \<longleftrightarrow> ends_ok s"
  using ends_ok_trim [of s] trim_fixed [of s] by auto

lemma set_trim: "set (trim s) \<subseteq> set s"
  by (auto simp: trim_def Let_def dest: in_set_takeD in_set_dropD)

lemma set_substr: "set (substr s p n) \<subseteq> set s"
  by (auto simp: substr_def dest: in_set_takeD in_set_dropD)

lemma set_trimQuotes: "set (trimQuotes s) \<subseteq> set s"
  using set_substr by (auto simp: trimQuotes_def)

lemma isspace_simps [simp]:
  "isspace (CHR '' '')" "\<not> isspace (CHR ''='')" "\<not> isspace (CHR '';'')"
  "\<not> isspace (CHR ''['')" "\<not> isspace (CHR '']'')" "\<not> isspace (CHR '','')"
  by (simp_all add: isspace_def)

section \<open>Values and lines as text\<close>

lemma saveValue_render:
  "shaped f v \<Longrightarrow> saveValue showDouble v = Inr (render v)"
  "\<forall>v\<in>set vs. shaped True v \<Longrightarrow> saveValues showDouble vs = Inr (join (map render vs))"
proof (induction showDouble v and showDouble vs arbitrary: f rule: saveValue_saveValues.induct)
  case (1 showDouble s vs t)
  then show ?case by (auto simp: getString_def)
next
  case (2 showDouble)
  then show ?case by simp
next
  case (3 showDouble v rest)
  then show ?case by (cases rest) auto
qed

lemma comment_line:
  assumes "trim c = c"
  shows "is_comment (CHR '';'' # CHR '' '' # c)"
    and "trim (drop 1 (trim (CHR '';'' # CHR '' '' # c))) = c"
proof -
  from assms have c: "ends_ok c" by (simp add: trim_fixed_iff)
  have t: "trim (CHR '';'' # CHR '' '' # c) = (if c = [] then '';'' else CHR '';'' # CHR '' '' # c)"
  proof (cases "c = []")
    case True
    have "trim ([] @ '';'' @ '' '') = '';''"
      by (rule trim_core) (simp_all add: ends_ok_def)
    with True show ?thesis by simp
  next
    case False
    with c have "ends_ok (CHR '';'' # CHR '' '' # c)" by (simp add: ends_ok_def)
    with False show ?thesis by (simp add: trim_fixed)
  qed
  show "is_comment (CHR '';'' # CHR '' '' # c)"
    by (simp add: is_comment_def t)
  have "trim ('' '' @ c @ []) = c"
    using c by (intro trim_core) simp_all
  then have "trim (CHR '' '' # c) = c" by simp
  moreover have "trim [] = []" by (simp add: trim_def)
  ultimately show "trim (drop 1 (trim (CHR '';'' # CHR '' '' # c))) = c"
    by (simp add: t)
qed

lemma header_line:
  assumes "plain_name s"
  shows "is_section_header (CHR ''['' # s @ '']'')" and "section_of (CHR ''['' # s @ '']'') = s"
proof -
  have "ends_ok (CHR ''['' # s @ '']'')" by (simp add: ends_ok_def)
  then have t: "trim (CHR ''['' # s @ '']'') = CHR ''['' # s @ '']''" by (rule trim_fixed)
  show "is_section_header (CHR ''['' # s @ '']'')"
    by (simp add: is_section_header_def t)
  show "section_of (CHR ''['' # s @ '']'') = s"
    using assms by (simp add: section_of_def t substr_def plain_name_def)
qed

lemma getlines_Nil: "getlines d [] = []"
  by (simp add: getlines.simps)

lemma getlines_no_delim: "s \<noteq> [] \<Longrightarrow> d \<notin> set s \<Longrightarrow> getlines d s = [s]"
proof -
  assume s: "s \<noteq> []" and d: "d \<notin> set s"
  from d have t: "takeWhile (\<lambda>c. c \<noteq> d) s = s" and r: "dropWhile (\<lambda>c. c \<noteq> d) s = []"
    by (auto simp: takeWhile_eq_all_conv)
  have "getlines d s = takeWhile (\<lambda>c. c \<noteq> d) s # getlines d (drop 1 (dropWhile (\<lambda>c. c \<noteq> d) s))"
    using s by (subst getlines.simps) simp
  then show ?thesis unfolding t r by (simp add: getlines_Nil)
qed

lemma getlines_delim: "d \<notin> set a \<Longrightarrow> getlines d (a @ d # rest) = a # getlines d rest"
proof -
  assume d: "d \<notin> set a"
  then have t: "takeWhile (\<lambda>c. c \<noteq> d) (a @ d # rest) = a"
    by (subst takeWhile_append2) auto
  from d have r: "dropWhile (\<lambda>c. c \<noteq> d) (a @ d # rest) = d # rest"
    by (subst dropWhile_append2) auto
  have "getlines d (a @ d # rest) = takeWhile (\<lambda>c. c \<noteq> d) (a @ d # rest)
      # getlines d (drop 1 (dropWhile (\<lambda>c. c \<noteq> d) (a @ d # rest)))"
    by (subst getlines.simps) simp
  then show ?thesis unfolding t r by simp
qed

lemma getlines_spaced_join:
  "rs \<noteq> [] \<Longrightarrow> \<forall>r\<in>set rs. CHR '','' \<notin> set r \<Longrightarrow>
     getlines (CHR '','') (CHR '' '' # join rs) = map (\<lambda>r. CHR '' '' # r) rs"
proof (induction rs rule: join.induct)
  case 1
  then show ?case by simp
next
  case (2 r)
  then show ?case by (simp add: getlines_no_delim)
next
  case (3 r r' rs)
  have "getlines (CHR '','') ((CHR '' '' # r) @ CHR '','' # (CHR '' '' # join (r' # rs)))
      = (CHR '' '' # r) # getlines (CHR '','') (CHR '' '' # join (r' # rs))"
    using "3.prems" by (intro getlines_delim) simp
  with 3 show ?case by simp
qed

lemma getlines_join:
  assumes "\<forall>r\<in>set rs. CHR '','' \<notin> set r" and "rs \<noteq> [[]]"
  shows "getlines (CHR '','') (join rs) =
     (case rs of [] \<Rightarrow> [] | r # rest \<Rightarrow> r # map (\<lambda>x. CHR '' '' # x) rest)"
proof (cases rs)
  case Nil
  then show ?thesis by (simp add: getlines_Nil)
next
  case (Cons r rest)
  show ?thesis
  proof (cases rest)
    case Nil
    with Cons assms show ?thesis by (simp add: getlines_no_delim)
  next
    case (Cons r' rest')
    have "getlines (CHR '','') (r @ CHR '','' # (CHR '' '' # join rest))
        = r # getlines (CHR '','') (CHR '' '' # join rest)"
      using assms \<open>rs = r # rest\<close> by (intro getlines_delim) simp
    moreover have "getlines (CHR '','') (CHR '' '' # join rest) = map (\<lambda>r. CHR '' '' # r) rest"
      using assms \<open>rs = r # rest\<close> Cons by (intro getlines_spaced_join) simp_all
    ultimately show ?thesis using \<open>rs = r # rest\<close> Cons by simp
  qed
qed

lemma set_join: "set (join rs) \<subseteq> (\<Union>r\<in>set rs. set r) \<union> {CHR '','', CHR '' ''}"
  by (induction rs rule: join.induct) auto

lemma plain_string_chars:
  "plain_string s \<Longrightarrow> c \<in> set s \<Longrightarrow>
     c \<noteq> CHR '','' \<and> c \<noteq> CHR '';'' \<and> c \<noteq> CHR ''['' \<and> c \<noteq> CHR '']'' \<and> c \<noteq> dquote"
  by (auto simp: plain_string_def list_all_iff)

lemma render_no_semicolon:
  "shaped f v \<Longrightarrow> plain_value v \<Longrightarrow> CHR '';'' \<notin> set (render v)"
proof (induction v arbitrary: f)
  case (SConfValue s vs t)
  show ?case
  proof (cases "t = Array")
    case True
    with SConfValue have "\<forall>w\<in>set vs. CHR '';'' \<notin> set (render w)" by auto
    with set_join [of "map render vs"] have "CHR '';'' \<notin> set (join (map render vs))" by auto
    with True show ?thesis by simp
  next
    case False
    with SConfValue.prems show ?thesis by (auto dest: plain_string_chars)
  qed
qed

lemma render_no_comma:
  "shaped True v \<Longrightarrow> plain_value v \<Longrightarrow> CHR '','' \<notin> set (render v)"
proof (induction v)
  case (SConfValue s vs t)
  show ?case
  proof (cases "t = Array")
    case True
    with SConfValue.prems have "vs = [] \<or> (\<exists>w. vs = [w])"
      by (cases vs; cases "tl vs") auto
    then show ?thesis
    proof
      assume "vs = []"
      with True show ?thesis by simp
    next
      assume "\<exists>w. vs = [w]"
      then obtain w where w: "vs = [w]" by blast
      with SConfValue True have "CHR '','' \<notin> set (render w)" by auto
      with True w show ?thesis by simp
    qed
  next
    case False
    with SConfValue.prems show ?thesis by (auto dest: plain_string_chars)
  qed
qed

lemma render_ends_ok: "shaped f v \<Longrightarrow> plain_value v \<Longrightarrow> ends_ok (render v)"
  by (cases v) (auto simp: ends_ok_def plain_string_def trim_fixed_iff)

lemma render_empty: "shaped f v \<Longrightarrow> render v = [] \<Longrightarrow> v = sConfValue_string []"
  by (cases v) (auto simp: sConfValue_string_def)

lemma render_isArray: "shaped f v \<Longrightarrow> plain_value v \<Longrightarrow> isArray (render v) \<longleftrightarrow> type v = Array"
proof (cases v)
  case (SConfValue s vs t)
  assume "shaped f v" and p: "plain_value v"
  show ?thesis
  proof (cases "t = Array")
    case True
    with SConfValue show ?thesis by (simp add: isArray_def)
  next
    case False
    with SConfValue p have ps: "plain_string s" by simp
    have "\<not> isArray s"
    proof
      assume "isArray s"
      then have "s \<noteq> []" "hd s = CHR ''[''" by (auto simp: isArray_def)
      then have "CHR ''['' \<in> set s" by (metis hd_in_set)
      with ps show False by (auto dest: plain_string_chars)
    qed
    with SConfValue False show ?thesis by simp
  qed
qed

lemma trimQuotes_no_quote: "hd s \<noteq> dquote \<or> s = [] \<Longrightarrow> trimQuotes s = s"
  by (auto simp: trimQuotes_def)

lemma render_trimQuotes: "shaped f v \<Longrightarrow> plain_value v \<Longrightarrow> trimQuotes (render v) = render v"
proof (cases v)
  case (SConfValue s vs t)
  assume "shaped f v" and p: "plain_value v"
  show ?thesis
  proof (cases "t = Array")
    case True
    with SConfValue show ?thesis by (simp add: trimQuotes_def)
  next
    case False
    with SConfValue p have ps: "plain_string s" by simp
    have "hd s \<noteq> dquote \<or> s = []"
      using ps plain_string_chars [of s "hd s"] by (cases s) auto
    with SConfValue False show ?thesis by (simp add: trimQuotes_no_quote)
  qed
qed

lemma trim_spaced: "ends_ok r \<Longrightarrow> trim (CHR '' '' # r) = r"
  using trim_core [of "'' ''" "[]" r] by simp

lemma parseArray_render:
  "shaped f v \<Longrightarrow> plain_value v \<Longrightarrow> type v = Array \<Longrightarrow> parseArray (render v) = values' v"
proof (induction v arbitrary: f)
  case (SConfValue s vs t)
  let ?item = "\<lambda>item. let trimmed = trimQuotes (trim item)
      in if isArray trimmed then sConfValue_array (parseArray trimmed)
         else sConfValue_string trimmed"
  from SConfValue.prems have t: "t = Array" and s: "s = []" by auto
  have sh: "\<forall>w\<in>set vs. shaped True w" using SConfValue.prems by auto
  have pl: "\<forall>w\<in>set vs. plain_value w" using SConfValue.prems t by auto
  have item: "?item (render w) = w \<and> ?item (CHR '' '' # render w) = w" if w: "w \<in> set vs" for w
  proof -
    from w sh pl have shw: "shaped True w" and plw: "plain_value w" by auto
    have e: "trim (render w) = render w" "trim (CHR '' '' # render w) = render w"
      using render_ends_ok [OF shw plw] by (simp_all add: trim_fixed trim_spaced)
    have q: "trimQuotes (render w) = render w"
      using shw plw by (rule render_trimQuotes)
    have "?item (render w) = w"
    proof (cases "type w = Array")
      case True
      with shw plw have "isArray (render w)" by (simp add: render_isArray)
      moreover have "parseArray (render w) = values' w"
        using w shw plw True by (rule SConfValue.IH)
      moreover from shw True have "sConfValue_array (values' w) = w"
        by (cases w) (auto simp: sConfValue_array_def)
      ultimately show ?thesis by (simp add: e q)
    next
      case False
      with shw plw have "\<not> isArray (render w)" by (simp add: render_isArray)
      moreover from shw False have "sConfValue_string (render w) = w"
        by (cases w) (auto simp: sConfValue_string_def)
      ultimately show ?thesis by (simp add: e q)
    qed
    then show ?thesis by (simp add: e)
  qed
  have nc: "\<forall>r\<in>set (map render vs). CHR '','' \<notin> set r"
    using sh pl render_no_comma by auto
  have ne: "map render vs \<noteq> [[]]"
  proof
    assume "map render vs = [[]]"
    then obtain w where w: "vs = [w]" and "render w = []" by auto
    with sh have "w = sConfValue_string []" by (auto dest: render_empty)
    with w SConfValue.prems t show False by simp
  qed
  have pieces: "getlines (CHR '','') (join (map render vs)) =
     (case map render vs of [] \<Rightarrow> [] | r # rest \<Rightarrow> r # map (\<lambda>x. CHR '' '' # x) rest)"
    using nc ne by (rule getlines_join)
  have "map ?item (getlines (CHR '','') (join (map render vs))) = vs"
  proof (cases vs)
    case Nil
    then show ?thesis by (simp add: getlines_Nil)
  next
    case (Cons w ws)
    have "?item (render w) = w" using item [of w] Cons by simp
    moreover have "map (\<lambda>x. ?item (CHR '' '' # render x)) ws = ws"
      using item Cons by (intro map_idI) simp
    moreover have "getlines (CHR '','') (join (map render vs))
        = render w # map (\<lambda>x. CHR '' '' # render x) ws"
      using pieces Cons by (simp add: o_def)
    ultimately show ?thesis
      using Cons by (simp add: o_def)
  qed
  moreover have "substr (render (SConfValue s vs t)) 1 (length (render (SConfValue s vs t)) - 2)
      = join (map render vs)"
    using t by (simp add: substr_def)
  ultimately show ?case
    by (subst parseArray.simps) (simp add: Let_def)
qed

lemma key_line_trim:
  assumes k: "ends_ok k" and t: "ends_ok t"
  shows "trim (k @ CHR '' '' # CHR ''='' # CHR '' '' # t)
     = k @ (if k = [] then [] else '' '') @ CHR ''='' # (if t = [] then [] else '' '') @ t"
proof -
  have m: "ends_ok (k @ (if k = [] then [] else '' '') @ CHR ''='' # (if t = [] then [] else '' '') @ t)"
    using k t by (auto simp: ends_ok_def hd_append)
  have "trim ((if k = [] then '' '' else [])
        @ (k @ (if k = [] then [] else '' '') @ CHR ''='' # (if t = [] then [] else '' '') @ t)
        @ (if t = [] then '' '' else []))
      = k @ (if k = [] then [] else '' '') @ CHR ''='' # (if t = [] then [] else '' '') @ t"
    using m by (intro trim_core) simp_all
  then show ?thesis by (cases "k = []"; cases "t = []") simp_all
qed

lemma sConfValue_array_values:
  "shaped f v \<Longrightarrow> type v = Array \<Longrightarrow> sConfValue_array (values' v) = v"
  by (cases v) (auto simp: sConfValue_array_def)

lemma sConfValue_string_render:
  "shaped f v \<Longrightarrow> type v \<noteq> Array \<Longrightarrow> sConfValue_string (render v) = v"
  by (cases v) (auto simp: sConfValue_string_def)

lemma key_line:
  assumes k: "trim k = k" "trimQuotes k = k" "CHR ''='' \<notin> set k" "take 1 k \<noteq> '';''"
      "\<not> (take 1 k = ''['' \<and> type v = Array)"
    and sh: "shaped f v" and pl: "plain_value v"
  defines "line \<equiv> k @ CHR '' '' # CHR ''='' # CHR '' '' # render v"
  shows "is_key_value line" and "CHR ''='' \<in> set (trim line)"
    and "key_of line = k" and "value_of line = v"
proof -
  define x where "x = (if k = [] then [] else '' '')"
  define y where "y = (if render v = [] then [] else '' '')"
  have ek: "ends_ok k" using k(1) by (simp add: trim_fixed_iff)
  have et: "ends_ok (render v)" using sh pl by (rule render_ends_ok)
  have tr: "trim line = k @ x @ CHR ''='' # y @ render v"
    unfolding line_def x_def y_def using ek et by (rule key_line_trim)
  show eq: "CHR ''='' \<in> set (trim line)" by (simp add: tr)
  have xs: "\<forall>c\<in>set x. isspace c" and ys: "\<forall>c\<in>set y. isspace c"
    by (simp_all add: x_def y_def)
  have "CHR ''='' \<notin> set (k @ x)" using k(3) by (simp add: x_def)
  then have split: "takeWhile (\<lambda>c. c \<noteq> CHR ''='') (trim line) = k @ x"
    unfolding tr by (subst append_assoc [symmetric], subst takeWhile_append2) auto
  have "trim ([] @ k @ x) = k" using xs ek by (intro trim_core) simp_all
  then show "key_of line = k"
    by (simp add: key_of_def split k(2))
  have "drop (length (k @ x) + 1) (trim line) = y @ render v"
    unfolding tr by simp
  moreover have "trim (y @ render v @ []) = render v" using ys et by (intro trim_core) simp_all
  ultimately have val: "trim (drop (Suc (length (takeWhile (\<lambda>c. c \<noteq> CHR ''='') (trim line)))) (trim line))
      = render v"
    by (simp add: split)
  have "find_char (CHR '';'') (render v) = None"
    using render_no_semicolon [OF sh pl] by (simp add: find_char_def)
  then have vt: "value_text line = render v"
    by (simp add: value_text_def val Let_def)
  show "value_of line = v"
  proof (cases "type v = Array")
    case True
    then show ?thesis
      using sh pl
      by (simp add: value_of_def vt render_isArray parseArray_render sConfValue_array_values)
  next
    case False
    then show ?thesis
      using sh pl
      by (simp add: value_of_def vt render_isArray render_trimQuotes sConfValue_string_render)
  qed
  have ne: "trim line \<noteq> []" by (simp add: tr)
  have hd: "hd (trim line) = (if k = [] then CHR ''='' else hd k)"
    by (simp add: tr x_def hd_append)
  have last: "last (trim line) = (if render v = [] then CHR ''='' else last (render v))"
    by (simp add: tr y_def)
  have nosemi: "hd (trim line) \<noteq> CHR '';''"
    using k(4) by (cases k) (simp_all add: hd)
  have "\<not> (hd (trim line) = CHR ''['' \<and> last (trim line) = CHR '']'')"
  proof (cases "type v = Array")
    case True
    with k(5) have "take 1 k \<noteq> ''[''" by simp
    then have "hd (trim line) \<noteq> CHR ''[''" by (cases k) (simp_all add: hd)
    then show ?thesis by simp
  next
    case False
    obtain s vs t where v: "v = SConfValue s vs t" by (cases v)
    with False pl have ps: "plain_string s" and r: "render v = s" by simp_all
    have "last (trim line) \<noteq> CHR '']''"
    proof (cases "s = []")
      case True
      then show ?thesis by (simp add: last r)
    next
      case False
      then have "last s \<in> set s" by simp
      with ps have "last s \<noteq> CHR '']''" by (auto dest: plain_string_chars)
      with False show ?thesis by (simp add: last r)
    qed
    then show ?thesis by simp
  qed
  with ne nosemi show "is_key_value line"
    by (simp add: is_key_value_def is_section_header_def)
qed

section \<open>Reading back the lines of a saved document\<close>

lemma update_absent: "k \<notin> fst ` set al \<Longrightarrow> AList.update k v al = al @ [(k, v)]"
  by (induction al) auto

lemma update_last: "k \<notin> fst ` set al \<Longrightarrow> AList.update k v (al @ [(k, w)]) = al @ [(k, v)]"
  by (induction al) auto

lemma subscript_absent: "k \<notin> fst ` set al \<Longrightarrow> subscript al k d = d"
proof -
  assume "k \<notin> fst ` set al"
  then have "map_of al k = None" by (simp add: map_of_eq_None_iff)
  then show ?thesis by (simp add: subscript_def)
qed

lemma subscript_last: "k \<notin> fst ` set al \<Longrightarrow> subscript (al @ [(k, w)]) k d = w"
proof -
  assume "k \<notin> fst ` set al"
  then have "map_of al k = None" by (simp add: map_of_eq_None_iff)
  then show ?thesis by (simp add: subscript_def map_add_def)
qed

lemma parse_comment_lines:
  "\<forall>c\<in>set cs. trim c = c \<Longrightarrow>
     parseLines (map (\<lambda>c. CHR '';'' # CHR '' '' # c) cs @ rest) cur buf this
       = parseLines rest cur (buf @ cs) this"
proof (induction cs arbitrary: buf)
  case Nil
  then show ?case by simp
next
  case (Cons c cs)
  then have "trim c = c" by simp
  then have "parseLine (CHR '';'' # CHR '' '' # c) cur buf this = Inr (cur, buf @ [c], this)"
    using comment_line [of c] by (simp add: parseLine_comment)
  with Cons show ?case by simp
qed

lemma parse_header_line:
  assumes "plain_name s"
  shows "parseLine (CHR ''['' # s @ '']'') cur buf this
     = Inr (s, [],
         this\<lparr>comments := AList.update s (subscript (comments this) s [] @ buf) (comments this)\<rparr>)"
  using header_line [OF assms] by (simp add: parseLine_header)

lemma parse_entry_line:
  assumes "entry_ok kv"
  shows "parseLine (entry_line kv) s buf this
     = Inr (s, [], this\<lparr>data := AList.update s
          (AList.update (fst kv) (snd kv) (subscript (data this) s [])) (data this)\<rparr>)"
proof -
  from assms have k: "trim (fst kv) = fst kv" "trimQuotes (fst kv) = fst kv"
      "CHR ''='' \<notin> set (fst kv)" "take 1 (fst kv) \<noteq> '';''"
      "\<not> (take 1 (fst kv) = ''['' \<and> type (snd kv) = Array)"
    and sh: "shaped False (snd kv)" and pl: "plain_value (snd kv)"
    by (simp_all add: entry_ok_def plain_entry_def)
  note kl = key_line [OF k sh pl, folded entry_line_def]
  show ?thesis
    using parseLine_key_value [OF kl(1,2), of s buf this] by (simp add: kl(3,4))
qed

lemma parse_entry_lines:
  assumes "s \<notin> fst ` set D" and "distinct (map fst (acc @ kvs))" and "\<forall>kv\<in>set kvs. entry_ok kv"
    and "acc \<noteq> []"
  shows "parseLines (map entry_line kvs @ rest) s [] \<lparr>data = D @ [(s, acc)], comments = C\<rparr>
     = parseLines rest s [] \<lparr>data = D @ [(s, acc @ kvs)], comments = C\<rparr>"
  using assms
proof (induction kvs arbitrary: acc)
  case Nil
  then show ?case by simp
next
  case (Cons kv kvs)
  from Cons.prems have ok: "entry_ok kv" and fresh: "fst kv \<notin> fst ` set acc" by auto
  have "parseLine (entry_line kv) s [] \<lparr>data = D @ [(s, acc)], comments = C\<rparr>
     = Inr (s, [], \<lparr>data = D @ [(s, acc @ [kv])], comments = C\<rparr>)"
    using Cons.prems(1) fresh
    by (simp add: parse_entry_line [OF ok] subscript_last update_absent update_last)
  moreover have "parseLines (map entry_line kvs @ rest) s [] \<lparr>data = D @ [(s, acc @ [kv])], comments = C\<rparr>
     = parseLines rest s [] \<lparr>data = D @ [(s, (acc @ [kv]) @ kvs)], comments = C\<rparr>"
    using Cons.prems by (intro Cons.IH) auto
  ultimately show ?case by simp
qed

lemma parse_section_lines:
  assumes ok: "section_ok cs sec" and D: "fst sec \<notin> fst ` set D" and C: "fst sec \<notin> fst ` set C"
  shows "parseLines (section_lines cs sec @ rest) cur [] \<lparr>data = D, comments = C\<rparr>
     = parseLines rest (fst sec) []
         \<lparr>data = D @ [sec], comments = C @ [(fst sec, subscript cs (fst sec) [])]\<rparr>"
proof -
  obtain s kvs where sec: "sec = (s, kvs)" by (cases sec)
  from ok sec obtain kv kvs' where kvs: "kvs = kv # kvs'"
    by (cases kvs) (auto simp: section_ok_def)
  from ok sec kvs have okkv: "entry_ok kv" and oks: "\<forall>kv\<in>set kvs'. entry_ok kv"
    and dist: "distinct (map fst ([kv] @ kvs'))" and name: "plain_name s"
    and com: "\<forall>c\<in>set (subscript cs s []). trim c = c"
    by (auto simp: section_ok_def)
  have "parseLines (section_lines cs sec @ rest) cur [] \<lparr>data = D, comments = C\<rparr>
      = parseLines ((CHR ''['' # s @ '']'') # map entry_line kvs @ rest) cur (subscript cs s [])
          \<lparr>data = D, comments = C\<rparr>"
    using parse_comment_lines [OF com, of "(CHR ''['' # s @ '']'') # map entry_line kvs @ rest" cur "[]"]
    by (simp add: section_lines_def sec)
  also have "\<dots> = parseLines (map entry_line kvs @ rest) s []
      \<lparr>data = D, comments = C @ [(s, subscript cs s [])]\<rparr>"
    using C sec by (simp add: parse_header_line [OF name] subscript_absent update_absent)
  also have "\<dots> = parseLines (map entry_line kvs' @ rest) s []
      \<lparr>data = D @ [(s, [kv])], comments = C @ [(s, subscript cs s [])]\<rparr>"
    using D sec by (simp add: kvs parse_entry_line [OF okkv] subscript_absent update_absent)
  also have "\<dots> = parseLines rest s []
      \<lparr>data = D @ [(s, [kv] @ kvs')], comments = C @ [(s, subscript cs s [])]\<rparr>"
    using D sec dist oks by (intro parse_entry_lines) auto
  finally show ?thesis by (simp add: sec kvs)
qed

lemma parse_document_lines:
  assumes "\<forall>sec\<in>set d. section_ok cs sec" and "distinct (map fst (D @ d))"
    and "map fst C = map fst D"
  shows "\<exists>cur'. parseLines (document_lines cs d) cur [] \<lparr>data = D, comments = C\<rparr>
     = (None, cur', [],
        \<lparr>data = D @ d, comments = C @ map (\<lambda>sec. (fst sec, subscript cs (fst sec) [])) d\<rparr>)"
  using assms
proof (induction d arbitrary: cur D C)
  case Nil
  then show ?case by (simp add: document_lines_def)
next
  case (Cons sec d)
  from Cons.prems have ok: "section_ok cs sec" and D: "fst sec \<notin> fst ` set D" by auto
  from Cons.prems(3) D have C: "fst sec \<notin> fst ` set C"
    by (metis set_map)
  have step: "parseLines (section_lines cs sec @ document_lines cs d) cur [] \<lparr>data = D, comments = C\<rparr>
     = parseLines (document_lines cs d) (fst sec) []
         \<lparr>data = D @ [sec], comments = C @ [(fst sec, subscript cs (fst sec) [])]\<rparr>"
    using ok D C by (rule parse_section_lines)
  have "\<exists>cur'. parseLines (document_lines cs d) (fst sec) []
         \<lparr>data = D @ [sec], comments = C @ [(fst sec, subscript cs (fst sec) [])]\<rparr>
     = (None, cur', [],
        \<lparr>data = (D @ [sec]) @ d,
         comments = (C @ [(fst sec, subscript cs (fst sec) [])])
            @ map (\<lambda>sec. (fst sec, subscript cs (fst sec) [])) d\<rparr>)"
    using Cons.prems by (intro Cons.IH) auto
  with step show ?case by (simp add: document_lines_def)
qed

lemma terminated_simps [simp]:
  "terminated [] = []" "terminated (l # ls) = l @ newline # terminated ls"
  "terminated (xs @ ys) = terminated xs @ terminated ys"
  by (simp_all add: terminated_def)

lemma getlines_terminated:
  "\<forall>l\<in>set ls. newline \<notin> set l \<Longrightarrow> getlines newline (terminated ls) = ls"
  by (induction ls) (simp_all add: getlines_Nil getlines_delim)

lemma save_keys_lines:
  "\<forall>kv\<in>set keys. shaped False (snd kv) \<Longrightarrow>
     save_keys showDouble keys = Inr (terminated (map entry_line keys))"
proof (induction keys)
  case Nil
  then show ?case by simp
next
  case (Cons kv keys)
  obtain k v where kv: "kv = (k, v)" by (cases kv)
  with Cons.prems have "shaped False v" by simp
  then have "saveValue showDouble v = Inr (render v)"
    by (rule saveValue_render)
  with Cons kv show ?case by (simp add: entry_line_def)
qed

lemma save_comments_lines:
  "save_comments cs s = terminated (map (\<lambda>c. CHR '';'' # CHR '' '' # c) (subscript cs s []))"
  by (simp add: save_comments_def subscript_def terminated_def o_def split: option.splits)

lemma save_sections_lines:
  "\<forall>sec\<in>set d. \<forall>kv\<in>set (snd sec). shaped False (snd kv) \<Longrightarrow>
     save_sections showDouble cs d = Inr (terminated (document_lines cs d))"
proof (induction d)
  case Nil
  then show ?case by (simp add: document_lines_def)
next
  case (Cons sec d)
  obtain s keys where sec: "sec = (s, keys)" by (cases sec)
  with Cons.prems have "save_keys showDouble keys = Inr (terminated (map entry_line keys))"
    by (simp add: save_keys_lines)
  moreover from Cons have "save_sections showDouble cs d = Inr (terminated (document_lines cs d))"
    by simp
  ultimately show ?case
    by (simp add: sec save_comments_lines document_lines_def section_lines_def)
qed

lemma set_render:
  "set (render v) \<subseteq> value_chars v \<union> {CHR ''['', CHR '']'', CHR '','', CHR '' ''}"
proof (induction v)
  case (SConfValue s vs t)
  let ?P = "{CHR ''['', CHR '']'', CHR '','', CHR '' ''}"
  have "set (join (map render vs)) \<subseteq> (\<Union>r\<in>set (map render vs). set r) \<union> {CHR '','', CHR '' ''}"
    by (rule set_join)
  moreover have "(\<Union>r\<in>set (map render vs). set r) \<subseteq> (\<Union>v\<in>set vs. value_chars v) \<union> ?P"
    using SConfValue.IH by fastforce
  ultimately have "set (join (map render vs)) \<subseteq> (\<Union>v\<in>set vs. value_chars v) \<union> ?P"
    by blast
  then show ?case by (cases "t = Array") auto
qed

lemma newline_not_punct:
  "newline \<noteq> CHR ''[''" "newline \<noteq> CHR '']''" "newline \<noteq> CHR '',''" "newline \<noteq> CHR '' ''"
  "newline \<noteq> CHR '';''" "newline \<noteq> CHR ''=''"
  by (simp_all add: newline_def)

lemma render_no_newline: "newline \<notin> value_chars v \<Longrightarrow> newline \<notin> set (render v)"
  using set_render [of v] newline_not_punct by auto

section \<open>What load leaves in the object\<close>

lemma getlines_item:
  "item \<in> set (getlines d s) \<Longrightarrow> d \<notin> set item \<and> set item \<subseteq> set s"
proof (induction d s rule: getlines.induct)
  case (1 d s)
  show ?case
  proof (cases "s = []")
    case True
    with "1.prems" show ?thesis by (simp add: getlines_Nil)
  next
    case False
    from "1.prems" False
    have "item = takeWhile (\<lambda>c. c \<noteq> d) s
        \<or> item \<in> set (getlines d (drop 1 (dropWhile (\<lambda>c. c \<noteq> d) s)))"
      by (subst (asm) getlines.simps) auto
    then show ?thesis
    proof
      assume "item = takeWhile (\<lambda>c. c \<noteq> d) s"
      then show ?thesis by (auto dest: set_takeWhileD)
    next
      assume "item \<in> set (getlines d (drop 1 (dropWhile (\<lambda>c. c \<noteq> d) s)))"
      with "1.IH" False
      have "d \<notin> set item \<and> set item \<subseteq> set (drop 1 (dropWhile (\<lambda>c. c \<noteq> d) s))" by simp
      moreover have "set (drop 1 (dropWhile (\<lambda>c. c \<noteq> d) s)) \<subseteq> set s"
        by (meson in_set_dropD set_dropWhileD subsetI)
      ultimately show ?thesis by blast
    qed
  qed
qed

lemma set_item_text: "set (trimQuotes (trim item)) \<subseteq> set item"
  using set_trimQuotes set_trim by blast

lemma parseArray_elem:
  assumes "w \<in> set (parseArray val)"
  obtains item where "item \<in> set (getlines (CHR '','') (substr val 1 (length val - 2)))"
    and "w = (if isArray (trimQuotes (trim item))
              then sConfValue_array (parseArray (trimQuotes (trim item)))
              else sConfValue_string (trimQuotes (trim item)))"
  using assms by (subst (asm) parseArray.simps) (auto simp: Let_def)

lemma parseArray_flat: "CHR '','' \<notin> set val \<Longrightarrow> length (parseArray val) \<le> 1"
proof -
  assume nc: "CHR '','' \<notin> set val"
  let ?inner = "substr val 1 (length val - 2)"
  from nc set_substr have "CHR '','' \<notin> set ?inner" by blast
  then have "getlines (CHR '','') ?inner = [] \<or> getlines (CHR '','') ?inner = [?inner]"
    by (cases "?inner = []") (simp_all add: getlines_Nil getlines_no_delim)
  then have "length (getlines (CHR '','') ?inner) \<le> 1" by auto
  then show ?thesis by (subst parseArray.simps) (simp add: Let_def)
qed

lemma parseArray_shaped: "w \<in> set (parseArray val) \<Longrightarrow> shaped True w"
proof (induction val arbitrary: w rule: parseArray.induct)
  case (1 val)
  from "1.prems" obtain item
    where item: "item \<in> set (getlines (CHR '','') (substr val 1 (length val - 2)))"
      and w: "w = (if isArray (trimQuotes (trim item))
              then sConfValue_array (parseArray (trimQuotes (trim item)))
              else sConfValue_string (trimQuotes (trim item)))"
    by (rule parseArray_elem)
  show ?case
  proof (cases "isArray (trimQuotes (trim item))")
    case True
    from item have "CHR '','' \<notin> set item" by (simp add: getlines_item)
    with set_item_text have "CHR '','' \<notin> set (trimQuotes (trim item))" by blast
    then have "length (parseArray (trimQuotes (trim item))) \<le> 1" by (rule parseArray_flat)
    moreover have "\<forall>w'\<in>set (parseArray (trimQuotes (trim item))). shaped True w'"
      using "1.IH" [OF refl item refl True] by blast
    ultimately show ?thesis using True w by (simp add: sConfValue_array_def)
  next
    case False
    with w show ?thesis by (simp add: sConfValue_string_def)
  qed
qed

lemma parseArray_chars: "w \<in> set (parseArray val) \<Longrightarrow> value_chars w \<subseteq> set val"
proof (induction val arbitrary: w rule: parseArray.induct)
  case (1 val)
  from "1.prems" obtain item
    where item: "item \<in> set (getlines (CHR '','') (substr val 1 (length val - 2)))"
      and w: "w = (if isArray (trimQuotes (trim item))
              then sConfValue_array (parseArray (trimQuotes (trim item)))
              else sConfValue_string (trimQuotes (trim item)))"
    by (rule parseArray_elem)
  from item have "set item \<subseteq> set (substr val 1 (length val - 2))" by (simp add: getlines_item)
  with set_substr have "set item \<subseteq> set val" by blast
  with set_item_text have sub: "set (trimQuotes (trim item)) \<subseteq> set val" by blast
  show ?case
  proof (cases "isArray (trimQuotes (trim item))")
    case True
    have "\<forall>w'\<in>set (parseArray (trimQuotes (trim item))). value_chars w' \<subseteq> set (trimQuotes (trim item))"
      using "1.IH" [OF refl item refl True] by blast
    with sub True w show ?thesis by (auto simp: sConfValue_array_def)
  next
    case False
    with sub w show ?thesis by (simp add: sConfValue_string_def)
  qed
qed

lemma set_value_text: "set (value_text line) \<subseteq> set line"
proof -
  let ?val = "trim (drop (length (takeWhile (\<lambda>c. c \<noteq> CHR ''='') (trim line)) + 1) (trim line))"
  have "set ?val \<subseteq> set (trim line)"
    using set_trim set_drop_subset by (metis subset_trans)
  then have val: "set ?val \<subseteq> set line" using set_trim by blast
  have "set (trimQuotes (trim (substr ?val 0 p))) \<subseteq> set ?val" for p
    using set_item_text set_substr by (metis subset_trans)
  with val show ?thesis
    unfolding value_text_def Let_def by (auto split: option.splits)
qed

lemma value_of_parsed:
  shows "shaped False (value_of line)" and "value_chars (value_of line) \<subseteq> set line"
proof -
  show "shaped False (value_of line)"
    by (simp add: value_of_def sConfValue_array_def sConfValue_string_def parseArray_shaped)
  have "\<forall>w\<in>set (parseArray (value_text line)). value_chars w \<subseteq> set line"
    using parseArray_chars set_value_text by blast
  moreover have "set (trimQuotes (value_text line)) \<subseteq> set line"
    using set_trimQuotes set_value_text by blast
  ultimately show "value_chars (value_of line) \<subseteq> set line"
    by (auto simp: value_of_def sConfValue_array_def sConfValue_string_def)
qed

lemma key_of_parsed:
  shows "CHR ''='' \<notin> set (key_of line)" and "set (key_of line) \<subseteq> set line"
proof -
  have a: "set (key_of line) \<subseteq> set (takeWhile (\<lambda>c. c \<noteq> CHR ''='') (trim line))"
    unfolding key_of_def by (rule set_item_text)
  then show "CHR ''='' \<notin> set (key_of line)" by (auto dest: set_takeWhileD)
  have "set (takeWhile (\<lambda>c. c \<noteq> CHR ''='') (trim line)) \<subseteq> set line"
    using set_trim by (auto dest: set_takeWhileD)
  with a show "set (key_of line) \<subseteq> set line" by blast
qed

lemma section_of_chars: "set (section_of line) \<subseteq> set line"
proof -
  have "set (section_of line) \<subseteq> set (substr (trim line) 1 (length (trim line) - 2))"
    unfolding section_of_def by (rule set_item_text)
  with set_substr set_trim show ?thesis by blast
qed

lemma set_update: "set (AList.update k v al) \<subseteq> insert (k, v) (set al)"
  by (induction al) auto

lemma update_not_Nil: "AList.update k v al \<noteq> []"
  by (cases al) auto

lemma subscript_cases:
  "subscript al k d = d \<or> (k, subscript al k d) \<in> set al"
  by (auto simp: subscript_def split: option.splits dest: map_of_SomeD)

lemma parsed_comments_append:
  "parsed_comments (xs @ ys) \<longleftrightarrow> parsed_comments xs \<and> parsed_comments ys"
  by (auto simp: parsed_comments_def)

lemma parseLine_parsed:
  assumes step: "parseLine line cur buf this = Inr (cur', buf', this')"
    and line: "newline \<notin> set line"
    and inv: "parsed_state this" "newline \<notin> set cur" "parsed_comments buf"
  shows "parsed_state this' \<and> newline \<notin> set cur' \<and> parsed_comments buf'"
proof -
  consider "is_blank line" | "is_comment line" | "is_section_header line"
    | "is_key_value line" "CHR ''='' \<notin> set (trim line)"
    | "is_key_value line" "CHR ''='' \<in> set (trim line)"
    using line_cases by blast
  then show ?thesis
  proof cases
    case 1
    with step inv show ?thesis by (simp add: parseLine_blank)
  next
    case 2
    have "set (trim (drop 1 (trim line))) \<subseteq> set line"
      using set_trim set_drop_subset by (metis subset_trans)
    with line have "parsed_comments [trim (drop 1 (trim line))]"
      by (auto simp: parsed_comments_def trim_idem)
    with 2 step inv show ?thesis
      by (auto simp: parseLine_comment parsed_comments_append)
  next
    case 3
    let ?s = "section_of line"
    let ?old = "subscript (comments this) ?s []"
    from 3 step have eq: "cur' = ?s" "buf' = []"
      "this' = this\<lparr>comments := AList.update ?s (?old @ buf) (comments this)\<rparr>"
      by (auto simp: parseLine_header)
    have "parsed_comments ?old"
      using subscript_cases [of "comments this" ?s "[]"] inv(1)
      by (auto simp: parsed_state_def parsed_comments_def)
    with inv(3) have new: "parsed_comments (?old @ buf)"
      by (simp add: parsed_comments_append)
    have "\<forall>ent\<in>set (AList.update ?s (?old @ buf) (comments this)). parsed_comments (snd ent)"
    proof
      fix ent assume "ent \<in> set (AList.update ?s (?old @ buf) (comments this))"
      with set_update have "ent = (?s, ?old @ buf) \<or> ent \<in> set (comments this)" by fastforce
      with new inv(1) show "parsed_comments (snd ent)" by (auto simp: parsed_state_def)
    qed
    with inv(1) have "parsed_state this'" by (simp add: eq parsed_state_def)
    moreover from line section_of_chars have "newline \<notin> set cur'" unfolding eq by blast
    ultimately show ?thesis by (simp add: eq parsed_comments_def)
  next
    case 4
    with step show ?thesis by (simp add: parseLine_malformed)
  next
    case 5
    let ?keys = "subscript (data this) cur []"
    let ?new = "AList.update (key_of line) (value_of line) ?keys"
    from 5 step have eq: "cur' = cur" "buf' = []"
      "this' = this\<lparr>data := AList.update cur ?new (data this)\<rparr>"
      by (auto simp: parseLine_key_value)
    have old: "distinct (map fst ?keys) \<and> (\<forall>kv\<in>set ?keys. parsed_entry kv)"
      using subscript_cases [of "data this" cur "[]"] inv(1)
      by (auto simp: parsed_state_def parsed_section_def)
    have "newline \<notin> set (key_of line)"
      using key_of_parsed(2) [of line] line by blast
    moreover have "newline \<notin> value_chars (value_of line)"
      using value_of_parsed(2) [of line] line by blast
    ultimately have entry: "parsed_entry (key_of line, value_of line)"
      by (simp add: parsed_entry_def key_of_parsed(1) value_of_parsed(1))
    have "\<forall>kv\<in>set ?new. parsed_entry kv"
    proof
      fix kv assume "kv \<in> set ?new"
      with set_update have "kv = (key_of line, value_of line) \<or> kv \<in> set ?keys" by fastforce
      with entry old show "parsed_entry kv" by auto
    qed
    with old inv(2) have sec: "parsed_section (cur, ?new)"
      by (simp add: parsed_section_def update_not_Nil distinct_update)
    have "\<forall>sec\<in>set (AList.update cur ?new (data this)). parsed_section sec"
    proof
      fix sec assume "sec \<in> set (AList.update cur ?new (data this))"
      with set_update have "sec = (cur, ?new) \<or> sec \<in> set (data this)" by fastforce
      with sec inv(1) show "parsed_section sec" by (auto simp: parsed_state_def)
    qed
    with inv(1) have "parsed_state this'"
      by (simp add: eq parsed_state_def distinct_update)
    with inv(2) show ?thesis by (simp add: eq parsed_comments_def)
  qed
qed

lemma parseLines_parsed:
  assumes "parseLines ls cur buf this = (e, cur', buf', this')"
    and "\<forall>l\<in>set ls. newline \<notin> set l"
    and "parsed_state this" "newline \<notin> set cur" "parsed_comments buf"
  shows "parsed_state this'"
  using assms
proof (induction ls arbitrary: cur buf this)
  case Nil
  then show ?case by simp
next
  case (Cons l ls)
  show ?case
  proof (cases "parseLine l cur buf this")
    case (Inl err)
    with Cons.prems show ?thesis by simp
  next
    case (Inr r)
    obtain c b t where r: "r = (c, b, t)" by (cases r)
    from Cons.prems have "newline \<notin> set l" by simp
    with Inr r Cons.prems have "parsed_state t \<and> newline \<notin> set c \<and> parsed_comments b"
      by (intro parseLine_parsed [of l cur buf this c b t]) simp_all
    moreover from Inr r Cons.prems(1) have "parseLines ls c b t = (e, cur', buf', this')" by simp
    ultimately show ?thesis using Cons.prems(2) by (intro Cons.IH [of c b t]) simp_all
  qed
qed

lemma load_parsed:
  assumes "load (Some text) sConfParser_init = (e, this)"
  shows "parsed_state this"
proof -
  from assms obtain cur buf
    where "parseLines (getlines newline text) [] [] sConfParser_init = (e, cur, buf, this)"
    by (auto simp: load_def load_lines_def split: prod.splits)
  moreover have "\<forall>l\<in>set (getlines newline text). newline \<notin> set l"
    by (simp add: getlines_item)
  moreover have "parsed_state sConfParser_init"
    by (simp add: parsed_state_def sConfParser_init_def)
  ultimately show ?thesis
    by (rule parseLines_parsed) (simp_all add: parsed_comments_def)
qed

section \<open>Round trip\<close>

lemma reordered_section:
  assumes "reordered this other" and "sec \<in> set (data other)"
  obtains keys where "(fst sec, keys) \<in> set (data this)" and "set (snd sec) = set keys"
    and "distinct (map fst (snd sec))"
proof -
  from assms have "distinct (map fst (snd sec))"
    and "case map_of (data this) (fst sec) of None \<Rightarrow> False | Some keys \<Rightarrow> set (snd sec) = set keys"
    by (auto simp: reordered_def list_all_iff)
  then obtain keys where "map_of (data this) (fst sec) = Some keys" "set (snd sec) = set keys"
    by (auto split: option.splits)
  with \<open>distinct (map fst (snd sec))\<close> that show thesis
    by (auto dest: map_of_SomeD)
qed

lemma reordered_sections_ok:
  assumes inv: "parsed_state this" and rt: "round_trippable this" and re: "reordered this other"
    and sec: "sec \<in> set (data other)"
  shows "section_ok (comments this) sec" and "section_clean (comments this) sec"
proof -
  from re sec obtain keys where keys: "(fst sec, keys) \<in> set (data this)"
    and same: "set (snd sec) = set keys" and dist: "distinct (map fst (snd sec))"
    by (rule reordered_section)
  from inv keys have ps: "parsed_section (fst sec, keys)" by (auto simp: parsed_state_def)
  from rt have "\<forall>x\<in>set (data this). plain_name (fst x)
      \<and> (\<forall>kv\<in>set (snd x). plain_entry (fst kv) (snd kv))"
    by (simp add: round_trippable_def list_all_iff case_prod_beta)
  with keys have name: "plain_name (fst sec)" and plain: "\<forall>kv\<in>set keys. plain_entry (fst kv) (snd kv)"
    by force+
  from ps same have ne: "snd sec \<noteq> []" by (auto simp: parsed_section_def)
  from ps plain same have ok: "\<forall>kv\<in>set (snd sec). entry_ok kv"
    by (auto simp: parsed_section_def parsed_entry_def entry_ok_def)
  have com: "parsed_comments (subscript (comments this) (fst sec) [])"
    using subscript_cases [of "comments this" "fst sec" "[]"] inv
    by (auto simp: parsed_state_def parsed_comments_def)
  from name ne dist ok com show "section_ok (comments this) sec"
    by (simp add: section_ok_def parsed_comments_def)
  from ps same com show "section_clean (comments this) sec"
    by (auto simp: section_clean_def parsed_section_def parsed_entry_def parsed_comments_def)
qed

lemma document_lines_no_newline:
  assumes "\<forall>sec\<in>set d. section_clean cs sec"
  shows "\<forall>l\<in>set (document_lines cs d). newline \<notin> set l"
proof
  fix l assume "l \<in> set (document_lines cs d)"
  then obtain sec where sec: "sec \<in> set d" and l: "l \<in> set (section_lines cs sec)"
    by (auto simp: document_lines_def)
  from assms sec have clean: "section_clean cs sec" by simp
  from l consider c where "c \<in> set (subscript cs (fst sec) [])" "l = CHR '';'' # CHR '' '' # c"
    | "l = CHR ''['' # fst sec @ '']''"
    | kv where "kv \<in> set (snd sec)" "l = entry_line kv"
    by (auto simp: section_lines_def)
  then show "newline \<notin> set l"
  proof cases
    case 1
    with clean show ?thesis by (auto simp: section_clean_def newline_not_punct)
  next
    case 2
    with clean show ?thesis by (auto simp: section_clean_def newline_not_punct)
  next
    case 3
    with clean have "newline \<notin> set (fst kv)" "newline \<notin> set (render (snd kv))"
      by (auto simp: section_clean_def render_no_newline)
    with 3 show ?thesis by (auto simp: entry_line_def newline_not_punct)
  qed
qed

lemma subscript_Some: "map_of al k = Some v \<Longrightarrow> subscript al k d = v"
  by (simp add: subscript_def)

lemma map_of_keyed:
  "s \<in> fst ` set d \<Longrightarrow> map_of (map (\<lambda>sec. (fst sec, f (fst sec))) d) s = Some (f s)"
  by (induction d) auto

lemma reordered_same_data:
  assumes inv: "parsed_state this" and re: "reordered this other"
  shows "map_option map_of (map_of (data other) s) = map_option map_of (map_of (data this) s)"
proof (cases "map_of (data other) s")
  case None
  then have "s \<notin> set (map fst (data other))" by (simp add: map_of_eq_None_iff)
  with re have "s \<notin> fst ` set (data this)" by (simp add: reordered_def)
  then have "map_of (data this) s = None" by (simp add: map_of_eq_None_iff)
  with None show ?thesis by simp
next
  case (Some keys')
  then have "(s, keys') \<in> set (data other)" by (rule map_of_SomeD)
  with re obtain keys where keys: "(s, keys) \<in> set (data this)"
    and same: "set keys' = set keys" and dist: "distinct (map fst keys')"
    by (auto elim: reordered_section)
  from inv keys have "distinct (map fst keys)" and "map_of (data this) s = Some keys"
    by (auto simp: parsed_state_def parsed_section_def)
  with same dist Some show ?thesis by (simp add: map_of_inject_set)
qed

text \<open>
  C1, as the code has it. Let \<open>load\<close> fill an empty object from a text without raising,
  and let the object be round-trippable: every section name and every key is unchanged by
  \<open>trim\<close> and \<open>trimQuotes\<close>, no key begins with \<open>;\<close>, no key of an array begins with \<open>[\<close>,
  every scalar string is unchanged by \<open>trim\<close> and has none of \<open>, ; [ ]\<close> and the double quote,
  and no array is the array of one empty string. Then, in whatever order the two maps
  are iterated, \<open>save\<close> succeeds, \<open>load\<close> of the saved text into an empty object succeeds,
  and the object it gives holds the same document: the same sections, keys and values,
  and for each section the same comment lines.
\<close>

theorem round_trip:
  assumes loaded: "load (Some text) sConfParser_init = (None, this)"
    and rt: "round_trippable this"
    and re: "reordered this other"
  shows "\<exists>out again. save showDouble True other = Inr out
     \<and> load (Some out) sConfParser_init = (None, again)
     \<and> same_document again this"
proof -
  let ?cs = "comments this"
  let ?lines = "document_lines ?cs (data other)"
  let ?again = "\<lparr>data = data other,
      comments = map (\<lambda>sec. (fst sec, subscript ?cs (fst sec) [])) (data other)\<rparr>"
  from loaded have inv: "parsed_state this" by (rule load_parsed)
  have ok: "\<forall>sec\<in>set (data other). section_ok ?cs sec"
    and clean: "\<forall>sec\<in>set (data other). section_clean ?cs sec"
    using reordered_sections_ok [OF inv rt re] by auto
  from ok have "\<forall>sec\<in>set (data other). \<forall>kv\<in>set (snd sec). shaped False (snd kv)"
    by (auto simp: section_ok_def entry_ok_def)
  then have "save_sections showDouble ?cs (data other) = Inr (terminated ?lines)"
    by (rule save_sections_lines)
  with re have saved: "save showDouble True other = Inr (terminated ?lines)"
    by (simp add: save_def reordered_def)
  from clean have "\<forall>l\<in>set ?lines. newline \<notin> set l" by (rule document_lines_no_newline)
  then have lines: "getlines newline (terminated ?lines) = ?lines" by (rule getlines_terminated)
  from re have "distinct (map fst ([] @ data other))" by (simp add: reordered_def)
  with ok obtain cur' where "parseLines ?lines [] [] \<lparr>data = [], comments = []\<rparr>
      = (None, cur', [], \<lparr>data = [] @ data other,
           comments = [] @ map (\<lambda>sec. (fst sec, subscript ?cs (fst sec) [])) (data other)\<rparr>)"
    using parse_document_lines [of "data other" ?cs "[]" "[]" "[]"] by auto
  then have reloaded: "load (Some (terminated ?lines)) sConfParser_init = (None, ?again)"
    by (simp add: load_def load_lines_def lines sConfParser_init_def)
  have "same_document ?again this"
    unfolding same_document_def
  proof (intro conjI allI impI)
    fix s
    show "map_option map_of (map_of (data ?again) s) = map_option map_of (map_of (data this) s)"
      using reordered_same_data [OF inv re] by simp
  next
    fix s assume "map_of (data ?again) s \<noteq> None"
    then have "s \<in> fst ` set (data other)" by (simp add: map_of_eq_None_iff)
    then have "map_of (comments ?again) s = Some (subscript (comments this) s [])"
      using map_of_keyed [of s "data other" "\<lambda>x. subscript (comments this) x []"] by simp
    then show "subscript (comments ?again) s [] = subscript (comments this) s []"
      by (rule subscript_Some)
  qed
  with saved reloaded show ?thesis by blast
qed

lemmas run_defs = load_def load_lines_def save_def reparse_def sConfParser_init_def
  parseLine_def trim_def trimQuotes_def isspace_def substr_def isArray_def find_char_def
  subscript_def sConfValue_string_def sConfValue_array_def save_comments_def getString_def
  newline_def Let_def getlines.simps parseArray.simps

lemma same_document_lookup:
  "same_document a b \<Longrightarrow>
     map_option (\<lambda>keys. map_of keys k) (map_of (data a) s)
       = map_option (\<lambda>keys. map_of keys k) (map_of (data b) s)"
proof -
  assume "same_document a b"
  then have "map_option map_of (map_of (data a) s) = map_option map_of (map_of (data b) s)"
    by (simp add: same_document_def)
  then have "map_option (\<lambda>m. m k) (map_option map_of (map_of (data a) s))
      = map_option (\<lambda>m. m k) (map_option map_of (map_of (data b) s))"
    by simp
  then show ?thesis by (simp add: option.map_comp o_def)
qed

text \<open>
  C1 as stated fails. The line \<open>x = " a "\<close> stores the string \<open> a \<close> with a space on each
  side, which has none of the characters that the claim excludes; \<open>save\<close> writes it without
  quotes and \<open>load\<close> reads back \<open>a\<close>.
\<close>

theorem round_trip_loses_spaces:
  "load (Some (''x = '' @ [dquote] @ '' a '' @ [dquote, newline])) sConfParser_init
     = (None, \<lparr>data = [([], [(''x'', sConfValue_string '' a '')])], comments = []\<rparr>)
   \<and> no_raw_delimiters \<lparr>data = [([], [(''x'', sConfValue_string '' a '')])], comments = []\<rparr>
   \<and> reparse \<lparr>data = [([], [(''x'', sConfValue_string '' a '')])], comments = []\<rparr>
     = Inr (None, \<lparr>data = [([], [(''x'', sConfValue_string ''a'')])], comments = [([], [])]\<rparr>)
   \<and> \<not> same_document \<lparr>data = [([], [(''x'', sConfValue_string ''a'')])], comments = [([], [])]\<rparr>
         \<lparr>data = [([], [(''x'', sConfValue_string '' a '')])], comments = []\<rparr>"
proof -
  have 1: "load (Some (''x = '' @ [dquote] @ '' a '' @ [dquote, newline])) sConfParser_init
     = (None, \<lparr>data = [([], [(''x'', sConfValue_string '' a '')])], comments = []\<rparr>)"
    by (simp add: run_defs)
  have 2: "no_raw_delimiters \<lparr>data = [([], [(''x'', sConfValue_string '' a '')])], comments = []\<rparr>"
    by (simp add: no_raw_delimiters_def sConfValue_string_def)
  have 3: "reparse \<lparr>data = [([], [(''x'', sConfValue_string '' a '')])], comments = []\<rparr>
     = Inr (None, \<lparr>data = [([], [(''x'', sConfValue_string ''a'')])], comments = [([], [])]\<rparr>)"
    by (simp add: run_defs)
  have 4: "\<not> same_document \<lparr>data = [([], [(''x'', sConfValue_string ''a'')])], comments = [([], [])]\<rparr>
         \<lparr>data = [([], [(''x'', sConfValue_string '' a '')])], comments = []\<rparr>"
    using same_document_lookup [of
        "\<lparr>data = [([], [(''x'', sConfValue_string ''a'')])], comments = [([], [])]\<rparr>"
        "\<lparr>data = [([], [(''x'', sConfValue_string '' a '')])], comments = []\<rparr>" "''x''" "[]"]
    by (auto simp: sConfValue_string_def)
  from 1 2 3 4 show ?thesis by blast
qed

text \<open>
  The theorem at a file of two sections, with a comment, a string, and an array that
  holds a nested array; the object is saved with its sections and keys in the opposite
  order.
\<close>

theorem round_trip_witness:
  "load (Some (''; top'' @ [newline] @ ''[s]'' @ [newline] @ ''k = v'' @ [newline]
        @ ''xs = [1, [2], x]'' @ [newline] @ ''[t]'' @ [newline] @ ''n = 1'' @ [newline])) sConfParser_init
     = (None, \<lparr>data = [(''s'', [(''k'', sConfValue_string ''v''),
                             (''xs'', sConfValue_array [sConfValue_string ''1'',
                                sConfValue_array [sConfValue_string ''2''], sConfValue_string ''x''])]),
                        (''t'', [(''n'', sConfValue_string ''1'')])],
               comments = [(''s'', [''top'']), (''t'', [])]\<rparr>)
   \<and> round_trippable \<lparr>data = [(''s'', [(''k'', sConfValue_string ''v''),
                             (''xs'', sConfValue_array [sConfValue_string ''1'',
                                sConfValue_array [sConfValue_string ''2''], sConfValue_string ''x''])]),
                        (''t'', [(''n'', sConfValue_string ''1'')])],
               comments = [(''s'', [''top'']), (''t'', [])]\<rparr>
   \<and> reordered \<lparr>data = [(''s'', [(''k'', sConfValue_string ''v''),
                             (''xs'', sConfValue_array [sConfValue_string ''1'',
                                sConfValue_array [sConfValue_string ''2''], sConfValue_string ''x''])]),
                        (''t'', [(''n'', sConfValue_string ''1'')])],
               comments = [(''s'', [''top'']), (''t'', [])]\<rparr>
        \<lparr>data = [(''t'', [(''n'', sConfValue_string ''1'')]),
                 (''s'', [(''xs'', sConfValue_array [sConfValue_string ''1'',
                                sConfValue_array [sConfValue_string ''2''], sConfValue_string ''x'']),
                          (''k'', sConfValue_string ''v'')])],
               comments = [(''s'', [''top'']), (''t'', [])]\<rparr>
   \<and> (\<exists>out again.
         save Inr True
           \<lparr>data = [(''t'', [(''n'', sConfValue_string ''1'')]),
                 (''s'', [(''xs'', sConfValue_array [sConfValue_string ''1'',
                                sConfValue_array [sConfValue_string ''2''], sConfValue_string ''x'']),
                          (''k'', sConfValue_string ''v'')])],
               comments = [(''s'', [''top'']), (''t'', [])]\<rparr> = Inr out
         \<and> load (Some out) sConfParser_init = (None, again)
         \<and> same_document again
             \<lparr>data = [(''s'', [(''k'', sConfValue_string ''v''),
                             (''xs'', sConfValue_array [sConfValue_string ''1'',
                                sConfValue_array [sConfValue_string ''2''], sConfValue_string ''x''])]),
                        (''t'', [(''n'', sConfValue_string ''1'')])],
               comments = [(''s'', [''top'']), (''t'', [])]\<rparr>)"
  (is "?L \<and> ?R \<and> ?O \<and> ?C")
proof -
  have l: ?L by (simp add: run_defs)
  have r: ?R
    by (simp add: round_trippable_def plain_name_def plain_entry_def plain_string_def
        sConfValue_string_def sConfValue_array_def trim_def trimQuotes_def isspace_def substr_def
        Let_def)
  have o: ?O
    by (auto simp: reordered_def sConfValue_string_def sConfValue_array_def)
  from round_trip [OF l r o, of Inr] have ?C .
  with l r o show ?thesis by blast
qed

text \<open>
  Each further condition of the theorem is needed: a section name in doubled quotes
  loses a pair of quotes; a key that begins with \<open>;\<close> comes back as a comment; a key that
  begins with \<open>[\<close> and holds an array comes back as a section header; the array of one
  empty string comes back as the empty array. None of these objects has a scalar string
  with one of the excluded characters.
\<close>

lemma round_trip_strips_section_quotes:
  "load (Some (''['' @ [dquote, dquote] @ ''s'' @ [dquote, dquote] @ '']'' @ [newline]
        @ ''k = v'' @ [newline])) sConfParser_init
     = (None, \<lparr>data = [([dquote, CHR ''s'', dquote], [(''k'', sConfValue_string ''v'')])],
               comments = [([dquote, CHR ''s'', dquote], [])]\<rparr>)
   \<and> no_raw_delimiters \<lparr>data = [([dquote, CHR ''s'', dquote], [(''k'', sConfValue_string ''v'')])],
               comments = [([dquote, CHR ''s'', dquote], [])]\<rparr>
   \<and> reparse \<lparr>data = [([dquote, CHR ''s'', dquote], [(''k'', sConfValue_string ''v'')])],
               comments = [([dquote, CHR ''s'', dquote], [])]\<rparr>
     = Inr (None, \<lparr>data = [(''s'', [(''k'', sConfValue_string ''v'')])], comments = [(''s'', [])]\<rparr>)
   \<and> \<not> same_document \<lparr>data = [(''s'', [(''k'', sConfValue_string ''v'')])], comments = [(''s'', [])]\<rparr>
         \<lparr>data = [([dquote, CHR ''s'', dquote], [(''k'', sConfValue_string ''v'')])],
               comments = [([dquote, CHR ''s'', dquote], [])]\<rparr>"
  (is "?L \<and> ?N \<and> ?R \<and> ?D")
proof -
  have ?L by (simp add: run_defs)
  moreover have ?N by (simp add: no_raw_delimiters_def sConfValue_string_def)
  moreover have ?R by (simp add: run_defs)
  moreover have ?D
    using same_document_lookup [of
        "\<lparr>data = [(''s'', [(''k'', sConfValue_string ''v'')])], comments = [(''s'', [])]\<rparr>"
        "\<lparr>data = [([dquote, CHR ''s'', dquote], [(''k'', sConfValue_string ''v'')])],
               comments = [([dquote, CHR ''s'', dquote], [])]\<rparr>" "''k''" "''s''"]
    by auto
  ultimately show ?thesis by blast
qed

lemma round_trip_key_becomes_comment:
  "load (Some ([dquote] @ '';k'' @ [dquote] @ '' = v'' @ [newline])) sConfParser_init
     = (None, \<lparr>data = [([], [('';k'', sConfValue_string ''v'')])], comments = []\<rparr>)
   \<and> no_raw_delimiters \<lparr>data = [([], [('';k'', sConfValue_string ''v'')])], comments = []\<rparr>
   \<and> reparse \<lparr>data = [([], [('';k'', sConfValue_string ''v'')])], comments = []\<rparr>
     = Inr (None, \<lparr>data = [], comments = [([], [])]\<rparr>)
   \<and> \<not> same_document \<lparr>data = [], comments = [([], [])]\<rparr>
         \<lparr>data = [([], [('';k'', sConfValue_string ''v'')])], comments = []\<rparr>"
  (is "?L \<and> ?N \<and> ?R \<and> ?D")
proof -
  have ?L by (simp add: run_defs)
  moreover have ?N by (simp add: no_raw_delimiters_def sConfValue_string_def)
  moreover have ?R by (simp add: run_defs)
  moreover have ?D
    using same_document_lookup [of "\<lparr>data = [], comments = [([], [])]\<rparr>"
        "\<lparr>data = [([], [('';k'', sConfValue_string ''v'')])], comments = []\<rparr>" "'';k''" "[]"]
    by auto
  ultimately show ?thesis by blast
qed

lemma round_trip_key_becomes_header:
  "load (Some (''[k = [1] ; c'' @ [newline])) sConfParser_init
     = (None, \<lparr>data = [([], [(''[k'', sConfValue_array [sConfValue_string ''1''])])], comments = []\<rparr>)
   \<and> no_raw_delimiters
        \<lparr>data = [([], [(''[k'', sConfValue_array [sConfValue_string ''1''])])], comments = []\<rparr>
   \<and> reparse \<lparr>data = [([], [(''[k'', sConfValue_array [sConfValue_string ''1''])])], comments = []\<rparr>
     = Inr (None, \<lparr>data = [], comments = [([], []), (''k = [1'', [])]\<rparr>)
   \<and> \<not> same_document \<lparr>data = [], comments = [([], []), (''k = [1'', [])]\<rparr>
         \<lparr>data = [([], [(''[k'', sConfValue_array [sConfValue_string ''1''])])], comments = []\<rparr>"
  (is "?L \<and> ?N \<and> ?R \<and> ?D")
proof -
  have ?L by (simp add: run_defs)
  moreover have ?N
    by (simp add: no_raw_delimiters_def sConfValue_string_def sConfValue_array_def)
  moreover have ?R by (simp add: run_defs)
  moreover have ?D
    using same_document_lookup [of "\<lparr>data = [], comments = [([], []), (''k = [1'', [])]\<rparr>"
        "\<lparr>data = [([], [(''[k'', sConfValue_array [sConfValue_string ''1''])])], comments = []\<rparr>"
        "''[k''" "[]"]
    by auto
  ultimately show ?thesis by blast
qed

lemma round_trip_loses_empty_item:
  "load (Some (''x = [,]'' @ [newline])) sConfParser_init
     = (None, \<lparr>data = [([], [(''x'', sConfValue_array [sConfValue_string []])])], comments = []\<rparr>)
   \<and> no_raw_delimiters
        \<lparr>data = [([], [(''x'', sConfValue_array [sConfValue_string []])])], comments = []\<rparr>
   \<and> reparse \<lparr>data = [([], [(''x'', sConfValue_array [sConfValue_string []])])], comments = []\<rparr>
     = Inr (None, \<lparr>data = [([], [(''x'', sConfValue_array [])])], comments = [([], [])]\<rparr>)
   \<and> \<not> same_document \<lparr>data = [([], [(''x'', sConfValue_array [])])], comments = [([], [])]\<rparr>
         \<lparr>data = [([], [(''x'', sConfValue_array [sConfValue_string []])])], comments = []\<rparr>"
  (is "?L \<and> ?N \<and> ?R \<and> ?D")
proof -
  have ?L by (simp add: run_defs)
  moreover have ?N
    by (simp add: no_raw_delimiters_def sConfValue_string_def sConfValue_array_def)
  moreover have ?R by (simp add: run_defs)
  moreover have ?D
    using same_document_lookup [of
        "\<lparr>data = [([], [(''x'', sConfValue_array [])])], comments = [([], [])]\<rparr>"
        "\<lparr>data = [([], [(''x'', sConfValue_array [sConfValue_string []])])], comments = []\<rparr>"
        "''x''" "[]"]
    by (auto simp: sConfValue_array_def)
  ultimately show ?thesis by blast
qed

end
